theory Spec2Isabelle
  imports
    Main
    "HOL-Library.AList"
    "HOL-Library.Multiset"
    "HOL-Library.Char_ord"
    "HOL-Library.List_Lexorder"
    "HOL-Library.Product_Lexorder"
begin

section \<open>Vertex identities (package object)\<close>

text \<open>
  The graph package works on \<^verbatim>\<open>object.ObjMetadata\<close> values. The struct is declared in
  package \<^verbatim>\<open>object\<close>; \<^verbatim>\<open>graph.go\<close> reads the fields \<^verbatim>\<open>GroupKind.Group\<close>,
  \<^verbatim>\<open>GroupKind.Kind\<close>, \<^verbatim>\<open>Namespace\<close> and \<^verbatim>\<open>Name\<close>, all Go strings, and compares whole
  values with \<^verbatim>\<open>==\<close> (structural equality). A Go string is a byte sequence compared
  bytewise; \<^typ>\<open>string\<close> with the orders on characters and on lists of the
  library theories \<open>Char_ord\<close> and \<open>List_Lexorder\<close> is the same order.
\<close>

record GroupKind =
  Group :: string
  Kind :: string

record ObjMetadata =
  Namespace :: string
  Name :: string
  GroupKind :: GroupKind

text \<open>\<^verbatim>\<open>type ObjMetadataSet []ObjMetadata\<close>: a slice used as a set.\<close>

type_synonym ObjMetadataSet = "ObjMetadata list"

text \<open>
  Modelled from the spec: \<^verbatim>\<open>object.ObjMetadataSet.Remove\<close> is called by
  \<^verbatim>\<open>removeVertex\<close> but its body, in package \<^verbatim>\<open>object\<close>, is not among the files verified here. The specification
  describes the step as "for each leaf, delete it from every other vertex's dependency
  set", on dependency sets that have set semantics: the result holds every member of the
  receiver but the removed object.
\<close>

definition Remove :: "ObjMetadataSet \<Rightarrow> ObjMetadata \<Rightarrow> ObjMetadataSet" where
  "Remove setA obj = filter (\<lambda>a. a \<noteq> obj) setA"

section \<open>Go maps and their iteration order\<close>

text \<open>
  \<^verbatim>\<open>map[object.ObjMetadata]object.ObjMetadataSet\<close> is modelled as an association list
  whose keys are distinct. The position of an entry in the list has no meaning for the
  program: a \<^verbatim>\<open>range\<close> statement over a Go map visits every entry once, in an order the
  runtime chooses anew each time. That choice is an explicit argument here, a ranking of
  the keys; \<open>range_map\<close> visits the entries by ascending rank. Every ranking gives
  an order that visits each entry once, and every order of the entries of a map is the
  order of some ranking (\<open>range_map_any_order\<close> below).
\<close>

type_synonym go_map = "(ObjMetadata \<times> ObjMetadataSet) list"

type_synonym iter_order = "ObjMetadata \<Rightarrow> nat"

definition range_map :: "iter_order \<Rightarrow> go_map \<Rightarrow> go_map" where
  "range_map \<rho> m = sort_key (\<lambda>e. \<rho> (fst e)) m"

text \<open>The ranking under which the keys are visited in the order of the list \<open>ks\<close>.\<close>

definition position :: "ObjMetadata list \<Rightarrow> ObjMetadata \<Rightarrow> nat" where
  "position ks k = length (takeWhile (\<lambda>x. x \<noteq> k) ks)"

text \<open>\<^verbatim>\<open>_, exists := m[k]\<close>\<close>

definition exists_map :: "go_map \<Rightarrow> ObjMetadata \<Rightarrow> bool" where
  "exists_map m k = (map_of m k \<noteq> None)"

text \<open>\<^verbatim>\<open>m[k]\<close>: the zero value (a nil slice, of length 0) for a missing key.\<close>

definition index_map :: "go_map \<Rightarrow> ObjMetadata \<Rightarrow> ObjMetadataSet" where
  "index_map m k = (case map_of m k of None \<Rightarrow> [] | Some adj \<Rightarrow> adj)"

section \<open>sort.Sort\<close>

text \<open>
  \<^verbatim>\<open>sort.Sort\<close> belongs to Go's standard library: it rearranges the data into ascending
  order as determined by the \<^verbatim>\<open>Less\<close> method, without a stability guarantee. It is
  modelled by insertion sort over the given comparison \<open>lt\<close>. On the data this program
  sorts (pairwise different elements under a strict total order) there is exactly one
  ascending arrangement, see \<open>sorted_wrt_unique\<close> below, so the choice of the algorithm
  is not observable.
\<close>

fun sort_insert :: "('a \<Rightarrow> 'a \<Rightarrow> bool) \<Rightarrow> 'a \<Rightarrow> 'a list \<Rightarrow> 'a list" where
  "sort_insert lt x [] = [x]"
| "sort_insert lt x (y # ys) =
     (if lt x y then x # y # ys else y # sort_insert lt x ys)"

definition sort_Sort :: "('a \<Rightarrow> 'a \<Rightarrow> bool) \<Rightarrow> 'a list \<Rightarrow> 'a list" where
  "sort_Sort lt xs = foldr (sort_insert lt) xs []"

section \<open>The graph (graph.go)\<close>

record Graph =
  edges :: go_map

record Edge =
  From :: ObjMetadata
  To :: ObjMetadata

definition New :: Graph where
  "New = \<lparr>edges = []\<rparr>"

definition AddVertex :: "Graph \<Rightarrow> ObjMetadata \<Rightarrow> Graph" where
  "AddVertex g v =
     (if \<not> exists_map (edges g) v then g\<lparr>edges := AList.update v [] (edges g)\<rparr> else g)"

definition metaIsLessThan :: "ObjMetadata \<Rightarrow> ObjMetadata \<Rightarrow> bool" where
  "metaIsLessThan i j =
     (if Group (GroupKind i) \<noteq> Group (GroupKind j)
        then Group (GroupKind i) < Group (GroupKind j)
      else if Kind (GroupKind i) \<noteq> Kind (GroupKind j)
        then Kind (GroupKind i) < Kind (GroupKind j)
      else if Namespace i \<noteq> Namespace j
        then Namespace i < Namespace j
      else Name i < Name j)"

text \<open>
  Modelled from the spec: \<^verbatim>\<open>ordering.SortableMetas\<close>, whose \<^verbatim>\<open>Less\<close> method orders
  the result of \<^verbatim>\<open>GetVertices\<close>, lives in package \<^verbatim>\<open>ordering\<close>, which is not among
  the files verified here. The specification fixes it: vertex identities are "totally ordered by
  the tuple (group, kind, namespace, name) using lexicographic string comparison on each
  field in that priority order".
\<close>

definition SortableMetas_Less :: "ObjMetadata \<Rightarrow> ObjMetadata \<Rightarrow> bool" where
  "SortableMetas_Less i j =
     ((Group (GroupKind i), Kind (GroupKind i), Namespace i, Name i)
        < (Group (GroupKind j), Kind (GroupKind j), Namespace j, Name j))"

definition GetVertices :: "iter_order \<Rightarrow> Graph \<Rightarrow> ObjMetadataSet" where
  "GetVertices \<rho> g = sort_Sort SortableMetas_Less (map fst (range_map \<rho> (edges g)))"

definition isAdjacent :: "Graph \<Rightarrow> ObjMetadata \<Rightarrow> ObjMetadata \<Rightarrow> bool" where
  "isAdjacent g from to =
     (if \<not> exists_map (edges g) from then False
      else to \<in> set (index_map (edges g) from))"

definition AddEdge :: "Graph \<Rightarrow> ObjMetadata \<Rightarrow> ObjMetadata \<Rightarrow> Graph" where
  "AddEdge g from to =
     (let g1 = (if \<not> exists_map (edges g) from
                then g\<lparr>edges := AList.update from [] (edges g)\<rparr> else g);
          g2 = (if \<not> exists_map (edges g1) to
                then g1\<lparr>edges := AList.update to [] (edges g1)\<rparr> else g1)
      in if \<not> isAdjacent g2 from to
         then g2\<lparr>edges := AList.update from (index_map (edges g2) from @ [to]) (edges g2)\<rparr>
         else g2)"

definition SortableEdges_Less :: "Edge \<Rightarrow> Edge \<Rightarrow> bool" where
  "SortableEdges_Less a b =
     (if From a \<noteq> From b then metaIsLessThan (From a) (From b)
      else metaIsLessThan (To a) (To b))"

definition GetEdges :: "iter_order \<Rightarrow> Graph \<Rightarrow> Edge list" where
  "GetEdges \<rho> g =
     sort_Sort SortableEdges_Less
       (concat (map (\<lambda>(from, toList). map (\<lambda>to. \<lparr>From = from, To = to\<rparr>) toList)
                    (range_map \<rho> (edges g))))"

definition Size :: "Graph \<Rightarrow> nat" where
  "Size g = length (edges g)"

text \<open>
  \<^verbatim>\<open>removeVertex\<close>: the loop overwrites the value of every key \<open>v\<close> it visits with
  \<^verbatim>\<open>adj.Remove(r)\<close>, computed from the value of that same key, and adds no key. Each
  entry is visited once, so the map after the loop does not depend on the order of the
  visits; the model rewrites each entry in place. Then the key \<open>r\<close> is deleted.
\<close>

definition removeVertex :: "Graph \<Rightarrow> ObjMetadata \<Rightarrow> Graph" where
  "removeVertex g r =
     g\<lparr>edges := AList.delete r (map (\<lambda>(v, adj). (v, Remove adj r)) (edges g))\<rparr>"

text \<open>
  The same method with its loop written out: the entries are visited in the order
  \<open>\<rho>\<close>, and each visit assigns \<^verbatim>\<open>g.edges[v] = adj.Remove(r)\<close>. It is equal to
  \<open>removeVertex\<close> for every \<open>\<rho>\<close> (\<open>removeVertex_loop_eq\<close> below).
\<close>

definition removeVertex_loop :: "iter_order \<Rightarrow> Graph \<Rightarrow> ObjMetadata \<Rightarrow> Graph" where
  "removeVertex_loop \<rho> g r =
     (let m = foldl (\<lambda>m (v, adj). AList.update v (Remove adj r) m) (edges g)
                (range_map \<rho> (edges g))
      in g\<lparr>edges := AList.delete r m\<rparr>)"

record CyclicDependencyError =
  Edges :: "Edge list"

text \<open>
  Modelled from the spec: \<^verbatim>\<open>validation.NewError(cause, ids...)\<close> belongs to package
  \<^verbatim>\<open>validation\<close>, not among the files verified here. The specification describes its
  result as "a failure carrying (a) every remaining edge in the residual graph and (b)
  every remaining vertex": a value that holds the cause and the identities it was given.
\<close>

record ValidationError =
  cause :: CyclicDependencyError
  ids :: ObjMetadataSet

definition NewError :: "CyclicDependencyError \<Rightarrow> ObjMetadataSet \<Rightarrow> ValidationError" where
  "NewError c is = \<lparr>cause = c, ids = is\<rparr>"

text \<open>
  \<^verbatim>\<open>Sort\<close>. The leaf scan of one pass of the loop, and the removal of the leaves found,
  are named so that statements can refer to them. \<open>\<rho>\<close> gives the iteration order the
  runtime picks for each \<^verbatim>\<open>range\<close> over \<^verbatim>\<open>g.edges\<close>: \<open>\<rho> n\<close> for the leaf scan of pass
  \<open>n\<close> (counted from 0), and \<open>\<rho> (n + 1)\<close>, \<open>\<rho> (n + 2)\<close> for the enumerations inside
  \<^verbatim>\<open>GetEdges\<close> and \<^verbatim>\<open>GetVertices\<close> when pass \<open>n\<close> ends in the error. The method mutates
  its receiver; the model returns the final graph next to the method's two results.
\<close>

definition Sort_leafVertices :: "iter_order \<Rightarrow> Graph \<Rightarrow> ObjMetadataSet" where
  "Sort_leafVertices \<rho> g =
     map fst (filter (\<lambda>(v, adj). length adj = 0) (range_map \<rho> (edges g)))"

definition Sort_removeLeaves :: "Graph \<Rightarrow> ObjMetadataSet \<Rightarrow> Graph" where
  "Sort_removeLeaves g leafVertices = foldl removeVertex g leafVertices"

function Sort_loop ::
  "(nat \<Rightarrow> iter_order) \<Rightarrow> nat \<Rightarrow> Graph \<Rightarrow> ObjMetadataSet list
     \<Rightarrow> (ObjMetadataSet list \<times> ValidationError option) \<times> Graph" where
  "Sort_loop \<rho> n g srtd =
     (if Size g > 0 then
        (let leafVertices = Sort_leafVertices (\<rho> n) g in
         if length leafVertices = 0 then
           ((srtd, Some (NewError \<lparr>Edges = GetEdges (\<rho> (n + 1)) g\<rparr>
                                  (GetVertices (\<rho> (n + 2)) g))), g)
         else Sort_loop \<rho> (n + 1) (Sort_removeLeaves g leafVertices) (srtd @ [leafVertices]))
      else ((srtd, None), g))"
  by pat_completeness auto
termination
proof (relation "measure (\<lambda>(\<rho>, n, g, srtd). Size g)")
  show "wf (measure (\<lambda>(\<rho>, n, g, srtd). Size g))" by simp
next
  fix \<rho> :: "nat \<Rightarrow> iter_order" and n :: nat and g :: Graph
    and srtd :: "ObjMetadataSet list" and x :: ObjMetadataSet
  assume x: "x = Sort_leafVertices (\<rho> n) g" and nonempty: "length x \<noteq> 0"
  from nonempty obtain l ls where ls: "x = l # ls" by (cases x) auto
  have del_le: "length (AList.delete k al) \<le> length al" for k and al :: go_map
    by (induction al) auto
  have del_less: "length (AList.delete k al) < length al"
    if "k \<in> fst ` set al" for k and al :: go_map
    using that
  proof (induction al)
    case Nil
    then show ?case by simp
  next
    case (Cons e al)
    with del_le [of k al] show ?case by (cases e) auto
  qed
  have rm_le: "Size (removeVertex h r) \<le> Size h" for h r
    using del_le [of r "map (\<lambda>(v, adj). (v, Remove adj r)) (edges h)"]
    by (simp add: Size_def removeVertex_def)
  have fold_le: "Size (foldl removeVertex h rs) \<le> Size h" for h rs
  proof (induction rs arbitrary: h)
    case Nil
    then show ?case by simp
  next
    case (Cons r rs)
    from Cons [of "removeVertex h r"] rm_le [of h r] show ?case by simp
  qed
  have "l \<in> set x" by (simp add: ls)
  then have "l \<in> fst ` set (edges g)"
    unfolding x by (auto simp: Sort_leafVertices_def range_map_def)
  then have "l \<in> fst ` set (map (\<lambda>(v, adj). (v, Remove adj l)) (edges g))"
    by force
  then have "Size (removeVertex g l) < Size g"
    using del_less [of l "map (\<lambda>(v, adj). (v, Remove adj l)) (edges g)"]
    by (simp add: Size_def removeVertex_def)
  with fold_le [of "removeVertex g l" ls]
  have "Size (Sort_removeLeaves g x) < Size g"
    by (simp add: ls Sort_removeLeaves_def)
  then show "((\<rho>, n + 1, Sort_removeLeaves g x, srtd @ [x]), (\<rho>, n, g, srtd))
             \<in> measure (\<lambda>(\<rho>, n, g, srtd). Size g)"
    by simp
qed

definition Sort ::
  "(nat \<Rightarrow> iter_order) \<Rightarrow> Graph \<Rightarrow> (ObjMetadataSet list \<times> ValidationError option) \<times> Graph" where
  "Sort \<rho> g = Sort_loop \<rho> 0 g []"

section \<open>Building a graph, and what it denotes\<close>

text \<open>A call of one of the two insertion methods, and a sequence of calls run on \<^verbatim>\<open>New()\<close>.\<close>

datatype call = CallAddVertex ObjMetadata | CallAddEdge ObjMetadata ObjMetadata

fun exec :: "Graph \<Rightarrow> call \<Rightarrow> Graph" where
  "exec g (CallAddVertex v) = AddVertex g v"
| "exec g (CallAddEdge from to) = AddEdge g from to"

definition build :: "call list \<Rightarrow> Graph" where
  "build cs = foldl exec New cs"

text \<open>The vertices and the edges (pairs "from depends on to") a graph holds.\<close>

definition vertexSet :: "Graph \<Rightarrow> ObjMetadata set" where
  "vertexSet g = set (map fst (edges g))"

definition edgeList :: "Graph \<Rightarrow> (ObjMetadata \<times> ObjMetadata) list" where
  "edgeList g = concat (map (\<lambda>(from, toList). map (Pair from) toList) (edges g))"

definition edgeSet :: "Graph \<Rightarrow> (ObjMetadata \<times> ObjMetadata) set" where
  "edgeSet g = set (edgeList g)"

text \<open>
  The representation invariant: the keys of the map are distinct (it is a map), every
  dependency set is free of duplicates, and every member of a dependency set is a key.
\<close>

definition wellformed :: "Graph \<Rightarrow> bool" where
  "wellformed g \<longleftrightarrow>
     distinct (map fst (edges g)) \<and>
     (\<forall>e \<in> set (edges g). distinct (snd e) \<and> set (snd e) \<subseteq> vertexSet g)"

text \<open>The index of the layer that holds a vertex (the first such layer, if any).\<close>

fun layerIndex :: "ObjMetadataSet list \<Rightarrow> ObjMetadata \<Rightarrow> nat option" where
  "layerIndex [] v = None"
| "layerIndex (l # ls) v =
     (if v \<in> set l then Some 0 else map_option Suc (layerIndex ls v))"

text \<open>Example identities: the namespace and the pod of the dry-run test.\<close>

definition ns1 :: ObjMetadata where
  "ns1 = \<lparr>Namespace = [], Name = ''ns1'',
           GroupKind = \<lparr>Group = [], Kind = ''Namespace''\<rparr>\<rparr>"

definition podB :: ObjMetadata where
  "podB = \<lparr>Namespace = ''ns1'', Name = ''podB'',
            GroupKind = \<lparr>Group = [], Kind = ''Pod''\<rparr>\<rparr>"

text \<open>An iteration order: every key has rank 0, so entries are visited as stored.\<close>

definition stored_order :: "nat \<Rightarrow> iter_order" where
  "stored_order n v = 0"

text \<open>
  A map without the vertices of a set: their entries are dropped and they are taken out
  of every dependency set.
\<close>

definition without :: "ObjMetadata set \<Rightarrow> go_map \<Rightarrow> go_map" where
  "without S m =
     map (\<lambda>(v, adj). (v, filter (\<lambda>a. a \<notin> S) adj)) (filter (\<lambda>(v, adj). v \<notin> S) m)"

text \<open>Example graphs: two vertices that depend on each other; the pod that depends on its namespace.\<close>

definition cycle2 :: Graph where
  "cycle2 = build [CallAddEdge podB ns1, CallAddEdge ns1 podB]"

definition chain :: Graph where
  "chain = build [CallAddVertex ns1, CallAddVertex podB, CallAddEdge podB ns1]"


text \<open>The vertices and the edge that one call names.\<close>

fun callVertices :: "call \<Rightarrow> ObjMetadata set" where
  "callVertices (CallAddVertex v) = {v}"
| "callVertices (CallAddEdge from to) = {from, to}"

fun callEdges :: "call \<Rightarrow> (ObjMetadata \<times> ObjMetadata) set" where
  "callEdges (CallAddVertex v) = {}"
| "callEdges (CallAddEdge from to) = {(from, to)}"


text \<open>
  The tuple (group, kind, namespace, name) of a vertex identity, ordered lexicographically
  by the library order on products and strings; and the pair of tuples of an edge.
\<close>

definition metaKey :: "ObjMetadata \<Rightarrow> string \<times> string \<times> string \<times> string" where
  "metaKey v = (Group (GroupKind v), Kind (GroupKind v), Namespace v, Name v)"

definition edgeKey ::
  "Edge \<Rightarrow> (string \<times> string \<times> string \<times> string) \<times> (string \<times> string \<times> string \<times> string)" where
  "edgeKey e = (metaKey (From e), metaKey (To e))"


text \<open>A second iteration order: keys with shorter names are visited first.\<close>

definition by_name_length :: "nat \<Rightarrow> iter_order" where
  "by_name_length n v = length (Name v)"


text \<open>
  More examples: the diamond A\<rightarrow>B, A\<rightarrow>C, B\<rightarrow>D, C\<rightarrow>D over four deployments, and a
  graph with an independent vertex and a vertex that depends on itself.
\<close>

definition deployment :: "string \<Rightarrow> ObjMetadata" where
  "deployment n = \<lparr>Namespace = ''default'', Name = n,
                    GroupKind = \<lparr>Group = ''apps'', Kind = ''Deployment''\<rparr>\<rparr>"

definition diamond :: "call list" where
  "diamond = [CallAddEdge (deployment ''A'') (deployment ''B''),
              CallAddEdge (deployment ''A'') (deployment ''C''),
              CallAddEdge (deployment ''B'') (deployment ''D''),
              CallAddEdge (deployment ''C'') (deployment ''D'')]"

definition self_edge :: "call list" where
  "self_edge = [CallAddVertex ns1, CallAddEdge podB podB]"


declare Sort_loop.simps [simp del]

section \<open>Facts about the map operations\<close>

lemma set_range_map: "set (range_map \<rho> m) = set m"
  by (simp add: range_map_def)

lemma mset_range_map: "mset (range_map \<rho> m) = mset m"
  by (simp add: range_map_def)

lemma exists_map_update:
  "exists_map (AList.update k v m) k' \<longleftrightarrow> k' = k \<or> exists_map m k'"
  by (auto simp: exists_map_def update_conv')

lemma index_map_update:
  "index_map (AList.update k v m) k' = (if k' = k then v else index_map m k')"
  by (simp add: index_map_def update_conv')

lemma examples_differ: "podB \<noteq> ns1" "ns1 \<noteq> podB"
  by (simp_all add: podB_def ns1_def)

section \<open>The order of the visits\<close>

text \<open>
  Two facts that justify the model of \<^verbatim>\<open>range\<close>. The loop of \<^verbatim>\<open>removeVertex\<close>, run
  in any order of visits, leaves the map that \<open>removeVertex\<close> computes. And every
  arrangement of the entries of a map is the order of visits of some ranking, so a
  statement proved for every ranking covers every order the runtime can pick.
\<close>

lemma update_map_entry:
  "distinct (map fst m) \<Longrightarrow> (k, a) \<in> set m \<Longrightarrow>
   AList.update k b (map (\<lambda>(v, adj). (v, F v adj)) m) =
     map (\<lambda>(v, adj). (v, if v = k then b else F v adj)) m"
proof (induction m)
  case Nil
  then show ?case by simp
next
  case (Cons e m)
  obtain v adj where e: "e = (v, adj)" by (cases e)
  show ?case
  proof (cases "v = k")
    case True
    with Cons.prems e have "k \<notin> fst ` set m" by simp
    then have "map (\<lambda>(v, adj). (v, if v = k then b else F v adj)) m =
        map (\<lambda>(v, adj). (v, F v adj)) m"
      by (intro map_cong) force+
    with True show ?thesis by (simp add: e)
  next
    case False
    with Cons e show ?thesis by auto
  qed
qed

lemma foldl_update_entries:
  assumes "distinct (map fst m)"
  shows "set es \<subseteq> set m \<Longrightarrow>
     foldl (\<lambda>m' (v, adj). AList.update v (h adj) m')
        (map (\<lambda>(v, adj). (v, if v \<in> D then h adj else adj)) m) es =
     map (\<lambda>(v, adj). (v, if v \<in> D \<union> fst ` set es then h adj else adj)) m"
proof (induction es arbitrary: D)
  case Nil
  show ?case by simp
next
  case (Cons e es)
  obtain k a where e: "e = (k, a)" by (cases e)
  with Cons.prems have ka: "(k, a) \<in> set m" by simp
  have one: "AList.update k (h a) (map (\<lambda>(v, adj). (v, if v \<in> D then h adj else adj)) m) =
      map (\<lambda>(v, adj). (v, if v \<in> insert k D then h adj else adj)) m"
  proof -
    have "AList.update k (h a) (map (\<lambda>(v, adj). (v, if v \<in> D then h adj else adj)) m) =
        map (\<lambda>(v, adj). (v, if v = k then h a else if v \<in> D then h adj else adj)) m"
      using assms ka by (rule update_map_entry)
    also have "\<dots> = map (\<lambda>(v, adj). (v, if v \<in> insert k D then h adj else adj)) m"
    proof (rule map_cong [OF refl])
      fix x assume x: "x \<in> set m"
      obtain v adj where xv: "x = (v, adj)" by (cases x)
      have "adj = a" if "v = k"
        using that x ka assms xv by (metis eq_key_imp_eq_value)
      then show "(case x of (v, adj) \<Rightarrow> (v, if v = k then h a else if v \<in> D then h adj else adj)) =
          (case x of (v, adj) \<Rightarrow> (v, if v \<in> insert k D then h adj else adj))"
        by (auto simp: xv)
    qed
    finally show ?thesis .
  qed
  from Cons.prems have "set es \<subseteq> set m" by simp
  from Cons.IH [OF this, of "insert k D"] show ?case by (simp add: e one)
qed

lemma removeVertex_loop_eq:
  assumes "distinct (map fst (edges g))"
  shows "removeVertex_loop \<rho> g r = removeVertex g r"
proof -
  let ?h = "\<lambda>adj. Remove adj r"
  have "set (range_map \<rho> (edges g)) \<subseteq> set (edges g)" by (simp add: set_range_map)
  from foldl_update_entries [OF assms this, of ?h "{}"]
  have "foldl (\<lambda>m' (v, adj). AList.update v (Remove adj r) m') (edges g) (range_map \<rho> (edges g)) =
      map (\<lambda>(v, adj). (v, if v \<in> fst ` set (edges g) then Remove adj r else adj)) (edges g)"
    by (simp add: set_range_map split_def)
  also have "\<dots> = map (\<lambda>(v, adj). (v, Remove adj r)) (edges g)"
    by (intro map_cong) force+
  finally show ?thesis by (simp add: removeVertex_loop_def removeVertex_def)
qed

lemma position_nth: "distinct ks \<Longrightarrow> i < length ks \<Longrightarrow> position ks (ks ! i) = i"
proof (induction ks arbitrary: i)
  case Nil
  then show ?case by simp
next
  case (Cons k ks)
  show ?case
  proof (cases i)
    case 0
    then show ?thesis by (simp add: position_def)
  next
    case (Suc j)
    with Cons.prems have "ks ! j \<in> set ks" by simp
    with Cons.prems have "k \<noteq> ks ! j" by auto
    with Cons Suc show ?thesis by (simp add: position_def)
  qed
qed

lemma range_map_any_order:
  assumes d: "distinct (map fst m)" and p: "mset es = mset m"
  shows "range_map (position (map fst es)) m = es"
  unfolding range_map_def
proof (rule properties_for_sort_key)
  let ?f = "\<lambda>e :: ObjMetadata \<times> ObjMetadataSet. position (map fst es) (fst e)"
  from p have "mset (map fst es) = mset (map fst m)" by simp
  with d have de: "distinct (map fst es)" by (metis mset_eq_imp_distinct_iff)
  have f_nth: "?f (es ! i) = i" if "i < length es" for i
    using position_nth [OF de, of i] that by simp
  show "mset es = mset m" by (rule p)
  show "sorted (map ?f es)"
    by (simp add: sorted_iff_nth_mono f_nth)
  have inj: "x = y" if "x \<in> set es" "y \<in> set es" "?f x = ?f y" for x y
  proof -
    from that obtain i j where "i < length es" "es ! i = x" "j < length es" "es ! j = y"
      by (auto simp: in_set_conv_nth)
    with that(3) f_nth [of i] f_nth [of j] show ?thesis by auto
  qed
  have dl: "distinct es" "distinct m"
    using de d by (simp_all add: distinct_map)
  show "filter (\<lambda>x. ?f k = ?f x) es = filter (\<lambda>x. ?f k = ?f x) m" if "k \<in> set es" for k
  proof -
    from p have s: "set m = set es" by (metis set_mset_mset)
    have single: "filter (\<lambda>x. k = x) xs = [k]"
      if "distinct xs" "k \<in> set xs" for xs :: go_map
      using that by (induction xs) (auto simp: filter_empty_conv)
    have e: "?f k = ?f x \<longleftrightarrow> k = x" if "x \<in> set es" for x
      using inj [OF \<open>k \<in> set es\<close> that] by blast
    have "filter (\<lambda>x. ?f k = ?f x) es = filter (\<lambda>x. k = x) es"
      by (rule filter_cong [OF refl]) (rule e)
    moreover have "filter (\<lambda>x. ?f k = ?f x) m = filter (\<lambda>x. k = x) m"
      by (rule filter_cong [OF refl]) (simp add: e s)
    moreover have "filter (\<lambda>x. k = x) es = [k]" "filter (\<lambda>x. k = x) m = [k]"
      using dl that s by (simp_all add: single)
    ultimately show ?thesis by simp
  qed
qed

section \<open>Sort on a graph without vertices\<close>

text \<open>
  C9. Sort called on an empty graph (no vertices, as the one \<^verbatim>\<open>New()\<close> returns) returns
  an empty sequence of layers and no error; the graph is as it was.
\<close>

theorem Sort_empty_graph: "Size g = 0 \<Longrightarrow> Sort \<rho> g = (([], None), g)"
  by (simp add: Sort_def Sort_loop.simps)

theorem Sort_empty_graph_witness:
  "Size New = 0 \<and> Sort stored_order New = (([], None), New)"
proof -
  have h: "Size New = 0" by (simp add: Size_def New_def)
  from Sort_empty_graph [OF h, of stored_order] h show ?thesis by simp
qed

section \<open>Idempotent insertion\<close>

lemma AddVertex_present: "exists_map (edges g) v \<Longrightarrow> AddVertex g v = g"
  by (simp add: AddVertex_def)

lemma exists_AddVertex: "exists_map (edges (AddVertex g v)) v"
  by (simp add: AddVertex_def exists_map_update)

lemma AddVertex_twice: "AddVertex (AddVertex g v) v = AddVertex g v"
  by (rule AddVertex_present) (rule exists_AddVertex)

lemma AddEdge_exists_adjacent:
  "exists_map (edges (AddEdge g a b)) a \<and> exists_map (edges (AddEdge g a b)) b \<and>
   isAdjacent (AddEdge g a b) a b"
  by (auto simp: AddEdge_def Let_def isAdjacent_def exists_map_update index_map_update)

lemma AddEdge_present:
  "exists_map (edges g) a \<Longrightarrow> exists_map (edges g) b \<Longrightarrow> isAdjacent g a b
     \<Longrightarrow> AddEdge g a b = g"
  by (simp add: AddEdge_def)

lemma AddEdge_twice: "AddEdge (AddEdge g a b) a b = AddEdge g a b"
  using AddEdge_exists_adjacent [of g a b] by (simp add: AddEdge_present)

text \<open>
  C5. Insertion is idempotent: a second \<^verbatim>\<open>AddVertex\<close> of the same identity, or a second
  \<^verbatim>\<open>AddEdge\<close> of the same ordered pair, leaves the graph as the first call left it (the
  same map, hence the same vertices and edges); and \<^verbatim>\<open>AddVertex\<close> of a vertex that is
  present changes nothing, so its dependency set is not reset.
\<close>

theorem insertion_idempotent:
  "AddVertex (AddVertex g v) v = AddVertex g v \<and>
   AddEdge (AddEdge g a b) a b = AddEdge g a b \<and>
   (exists_map (edges g) v \<longrightarrow> AddVertex g v = g)"
  by (simp add: AddVertex_twice AddEdge_twice AddVertex_present)

theorem insertion_idempotent_witness:
  "exists_map (edges (AddEdge New podB ns1)) podB \<and>
   edges (AddVertex (AddEdge New podB ns1) podB) = [(podB, [ns1]), (ns1, [])] \<and>
   edges (AddEdge (AddEdge New podB ns1) podB ns1) = [(podB, [ns1]), (ns1, [])]"
  using insertion_idempotent [of "AddEdge New podB ns1" podB podB ns1]
  by (simp add: AddEdge_def Let_def New_def isAdjacent_def exists_map_def index_map_def
      examples_differ)

section \<open>sort.Sort returns a rearrangement\<close>

lemma mset_sort_insert: "mset (sort_insert lt x xs) = add_mset x (mset xs)"
  by (induction xs) auto

lemma mset_sort_Sort: "mset (sort_Sort lt xs) = mset xs"
  by (induction xs) (auto simp: sort_Sort_def mset_sort_insert)

lemma set_sort_Sort: "set (sort_Sort lt xs) = set xs"
  using mset_sort_Sort [of lt xs] by (metis set_mset_mset)

lemma set_GetVertices: "set (GetVertices \<rho> g) = vertexSet g"
  by (simp add: GetVertices_def set_sort_Sort vertexSet_def set_range_map)

lemma set_GetEdges: "set (GetEdges \<rho> g) = (\<lambda>(a, b). \<lparr>From = a, To = b\<rparr>) ` edgeSet g"
  by (force simp: GetEdges_def set_sort_Sort edgeSet_def edgeList_def set_range_map)

section \<open>One pass of the loop of Sort\<close>

lemma Sort_loop_empty: "Size g = 0 \<Longrightarrow> Sort_loop \<rho> n g srtd = ((srtd, None), g)"
  by (simp add: Sort_loop.simps)

lemma Sort_loop_stuck:
  "0 < Size g \<Longrightarrow> Sort_leafVertices (\<rho> n) g = [] \<Longrightarrow>
   Sort_loop \<rho> n g srtd =
     ((srtd, Some (NewError \<lparr>Edges = GetEdges (\<rho> (n + 1)) g\<rparr> (GetVertices (\<rho> (n + 2)) g))), g)"
  by (simp add: Sort_loop.simps)

lemma Sort_loop_step:
  "0 < Size g \<Longrightarrow> Sort_leafVertices (\<rho> n) g \<noteq> [] \<Longrightarrow>
   Sort_loop \<rho> n g srtd =
     Sort_loop \<rho> (n + 1) (Sort_removeLeaves g (Sort_leafVertices (\<rho> n) g))
       (srtd @ [Sort_leafVertices (\<rho> n) g])"
  by (subst Sort_loop.simps) (simp add: Let_def)

lemma set_leafVertices: "set (Sort_leafVertices \<rho> g) = {v. (v, []) \<in> set (edges g)}"
  by (force simp: Sort_leafVertices_def set_range_map)

lemma edges_removeLeaves:
  "edges (Sort_removeLeaves g ls) =
     map (\<lambda>(v, adj). (v, filter (\<lambda>a. a \<notin> set ls) adj))
         (filter (\<lambda>(v, adj). v \<notin> set ls) (edges g))"
proof (induction ls arbitrary: g)
  case Nil
  show ?case by (simp add: Sort_removeLeaves_def split_def)
next
  case (Cons l ls)
  have "edges (Sort_removeLeaves g (l # ls)) = edges (Sort_removeLeaves (removeVertex g l) ls)"
    by (simp add: Sort_removeLeaves_def)
  also have "\<dots> = map (\<lambda>(v, adj). (v, filter (\<lambda>a. a \<notin> set ls) adj))
         (filter (\<lambda>(v, adj). v \<notin> set ls) (edges (removeVertex g l)))"
    by (rule Cons.IH)
  also have "\<dots> = map (\<lambda>(v, adj). (v, filter (\<lambda>a. a \<notin> set (l # ls)) adj))
         (filter (\<lambda>(v, adj). v \<notin> set (l # ls)) (edges g))"
  proof -
    have c: "(l \<noteq> k) = (k \<noteq> l)" for k :: ObjMetadata by auto
    show ?thesis
      by (simp add: removeVertex_def AList.delete_eq Remove_def filter_map o_def split_def c)
  qed
  finally show ?case .
qed

lemma Size_removeLeaves_less:
  assumes "Sort_leafVertices \<rho> g \<noteq> []"
  shows "Size (Sort_removeLeaves g (Sort_leafVertices \<rho> g)) < Size g"
proof -
  let ?ls = "Sort_leafVertices \<rho> g"
  from assms obtain l where l: "l \<in> set ?ls" by (cases ?ls) auto
  then obtain e where e: "e \<in> set (edges g)" "fst e = l"
    by (auto simp: set_leafVertices)
  have "length (filter (\<lambda>(v, adj). v \<notin> set ?ls) (edges g)) < length (edges g)"
    by (rule length_filter_less [OF e(1)]) (use e l in \<open>auto simp: split_def\<close>)
  then show ?thesis by (simp add: Size_def edges_removeLeaves)
qed

lemma Sort_loop_srtd:
  "Sort_loop \<rho> n g srtd =
     ((srtd @ fst (fst (Sort_loop \<rho> n g [])), snd (fst (Sort_loop \<rho> n g []))),
      snd (Sort_loop \<rho> n g []))"
proof (induction "Size g" arbitrary: g n srtd rule: less_induct)
  case less
  let ?lv = "Sort_leafVertices (\<rho> n) g"
  let ?g' = "Sort_removeLeaves g ?lv"
  show ?case
  proof (cases "Size g = 0")
    case True
    then show ?thesis by (simp add: Sort_loop_empty)
  next
    case False
    then have pos: "0 < Size g" by simp
    show ?thesis
    proof (cases "?lv = []")
      case True
      with pos show ?thesis by (simp add: Sort_loop_stuck)
    next
      case False
      then have smaller: "Size ?g' < Size g" by (rule Size_removeLeaves_less)
      have a: "Sort_loop \<rho> n g srtd = Sort_loop \<rho> (n + 1) ?g' (srtd @ [?lv])"
        using pos False by (rule Sort_loop_step [where \<rho> = \<rho> and n = n])
      have b: "Sort_loop \<rho> n g [] = Sort_loop \<rho> (n + 1) ?g' [?lv]"
        using Sort_loop_step [where \<rho> = \<rho> and n = n and srtd = "[]", OF pos False] by simp
      let ?R = "Sort_loop \<rho> (n + 1) ?g' []"
      have ih: "Sort_loop \<rho> (n + 1) ?g' s = ((s @ fst (fst ?R), snd (fst ?R)), snd ?R)" for s
        by (rule less [OF smaller])
      show ?thesis
        unfolding a b ih [of "srtd @ [?lv]"] ih [of "[?lv]"] by simp
    qed
  qed
qed

lemma Sort_loop_step_nil:
  assumes "0 < Size g" and "Sort_leafVertices (\<rho> n) g \<noteq> []"
  shows "Sort_loop \<rho> n g [] =
     ((Sort_leafVertices (\<rho> n) g #
         fst (fst (Sort_loop \<rho> (n + 1) (Sort_removeLeaves g (Sort_leafVertices (\<rho> n) g)) [])),
       snd (fst (Sort_loop \<rho> (n + 1) (Sort_removeLeaves g (Sort_leafVertices (\<rho> n) g)) []))),
      snd (Sort_loop \<rho> (n + 1) (Sort_removeLeaves g (Sort_leafVertices (\<rho> n) g)) []))"
  by (subst Sort_loop_step [where \<rho> = \<rho> and n = n, OF assms], subst Sort_loop_srtd) simp

text \<open>Induction over the passes of the loop, started with no layers.\<close>

lemma Sort_loop_induct [case_names empty stuck step]:
  assumes empty: "\<And>n g. Size g = 0 \<Longrightarrow> P n g"
    and stuck: "\<And>n g. 0 < Size g \<Longrightarrow> Sort_leafVertices (\<rho> n) g = [] \<Longrightarrow> P n g"
    and step: "\<And>n g. 0 < Size g \<Longrightarrow> Sort_leafVertices (\<rho> n) g \<noteq> [] \<Longrightarrow>
        P (n + 1) (Sort_removeLeaves g (Sort_leafVertices (\<rho> n) g)) \<Longrightarrow> P n g"
  shows "P n g"
proof (induction "Size g" arbitrary: g n rule: less_induct)
  case less
  show ?case
  proof (cases "Size g = 0")
    case True
    then show ?thesis by (rule empty)
  next
    case False
    then have pos: "0 < Size g" by simp
    show ?thesis
    proof (cases "Sort_leafVertices (\<rho> n) g = []")
      case True
      with pos show ?thesis by (rule stuck)
    next
      case False
      from pos False less [OF Size_removeLeaves_less [OF False]] show ?thesis by (rule step)
    qed
  qed
qed

lemma Sort_layers_nonempty: "l \<in> set (fst (fst (Sort_loop \<rho> n g []))) \<Longrightarrow> l \<noteq> []"
proof (induction n g rule: Sort_loop_induct [where \<rho> = \<rho>])
  case (empty n g)
  then show ?case by (simp add: Sort_loop_empty)
next
  case (stuck n g)
  then show ?case by (simp add: Sort_loop_stuck)
next
  case (step n g)
  then show ?case by (auto simp: Sort_loop_step_nil)
qed

lemma Sort_layers_length: "length (fst (fst (Sort_loop \<rho> n g []))) \<le> Size g"
proof (induction n g rule: Sort_loop_induct [where \<rho> = \<rho>])
  case (empty n g)
  then show ?case by (simp add: Sort_loop_empty)
next
  case (stuck n g)
  then show ?case by (simp add: Sort_loop_stuck)
next
  case (step n g)
  from step(3) Size_removeLeaves_less [OF step(2)] show ?case
    by (simp add: Sort_loop_step_nil [where \<rho> = \<rho> and n = n, OF step(1,2)])
qed

lemma without_empty: "without {} m = m"
  by (simp add: without_def split_def)

lemma without_without: "without T (without S m) = without (S \<union> T) m"
  by (simp add: without_def filter_map o_def split_def conj_commute)

lemma keys_without: "map fst (without S m) = filter (\<lambda>k. k \<notin> S) (map fst m)"
  by (simp add: without_def filter_map o_def split_def)

lemma edges_removeLeaves_without: "edges (Sort_removeLeaves g ls) = without (set ls) (edges g)"
  by (simp add: edges_removeLeaves without_def)

lemma Sort_loop_residual:
  "edges (snd (Sort_loop \<rho> n g [])) = without (set (concat (fst (fst (Sort_loop \<rho> n g []))))) (edges g)"
proof (induction n g rule: Sort_loop_induct [where \<rho> = \<rho>])
  case (empty n g)
  then show ?case by (simp add: Sort_loop_empty without_empty)
next
  case (stuck n g)
  then show ?case by (simp add: Sort_loop_stuck without_empty)
next
  case (step n g)
  from step(3) show ?case
    by (simp add: Sort_loop_step_nil [where \<rho> = \<rho> and n = n, OF step(1,2)]
        edges_removeLeaves_without without_without)
qed

lemma Sort_loop_success:
  "snd (fst (Sort_loop \<rho> n g [])) = None \<Longrightarrow> Size (snd (Sort_loop \<rho> n g [])) = 0"
proof (induction n g rule: Sort_loop_induct [where \<rho> = \<rho>])
  case (empty n g)
  then show ?case by (simp add: Sort_loop_empty)
next
  case (stuck n g)
  then show ?case by (simp add: Sort_loop_stuck)
next
  case (step n g)
  then show ?case by (simp add: Sort_loop_step_nil [where \<rho> = \<rho> and n = n])
qed

lemma Sort_loop_failure:
  "snd (fst (Sort_loop \<rho> n g [])) = Some e \<Longrightarrow>
     0 < Size (snd (Sort_loop \<rho> n g [])) \<and>
     Sort_leafVertices \<rho>' (snd (Sort_loop \<rho> n g [])) = [] \<and>
     set (ids e) = vertexSet (snd (Sort_loop \<rho> n g [])) \<and>
     set (Edges (cause e)) = (\<lambda>(a, b). \<lparr>From = a, To = b\<rparr>) ` edgeSet (snd (Sort_loop \<rho> n g []))"
proof (induction n g rule: Sort_loop_induct [where \<rho> = \<rho>])
  case (empty n g)
  then show ?case by (simp add: Sort_loop_empty)
next
  case (stuck n g)
  from stuck(2) have "set (Sort_leafVertices \<rho>' g) = {}"
    by (simp add: set_leafVertices flip: set_empty)
  with stuck show ?case
    by (auto simp: Sort_loop_stuck NewError_def set_GetVertices set_GetEdges)
next
  case (step n g)
  then show ?case by (simp add: Sort_loop_step_nil [where \<rho> = \<rho> and n = n])
qed


section \<open>Example runs\<close>

lemma edges_chain: "edges chain = [(ns1, []), (podB, [ns1])]"
  by (simp add: chain_def build_def AddVertex_def AddEdge_def Let_def New_def isAdjacent_def
      exists_map_def index_map_def examples_differ)

lemma edges_cycle2: "edges cycle2 = [(podB, [ns1]), (ns1, [podB])]"
  by (simp add: cycle2_def build_def AddVertex_def AddEdge_def Let_def New_def isAdjacent_def
      exists_map_def index_map_def examples_differ)

lemma leaves_chain: "Sort_leafVertices (stored_order 0) chain = [ns1]"
  by (simp add: Sort_leafVertices_def range_map_def edges_chain stored_order_def)

lemma leaves_cycle2: "Sort_leafVertices (stored_order 0) cycle2 = []"
  by (simp add: Sort_leafVertices_def range_map_def edges_cycle2 stored_order_def)


section \<open>Termination and progress\<close>

text \<open>
  C10. Sort terminates on every graph. \<open>Sort_loop\<close> is a total function: its
  termination proof is the argument of the claim, \<open>Size\<close> decreases with each pass
  that goes on. A pass on a non-empty graph either finds no leaf and returns at once with
  the failure, or removes its leaves, which makes \<open>Size\<close> strictly smaller, and goes
  on. So every layer of the result is non-empty and there are at most \<open>Size g\<close> layers.
\<close>

theorem Sort_terminates:
  "(0 < Size g \<longrightarrow>
      (if Sort_leafVertices (\<rho> n) g = []
       then \<exists>e. Sort_loop \<rho> n g srtd = ((srtd, Some e), g)
       else Size (Sort_removeLeaves g (Sort_leafVertices (\<rho> n) g)) < Size g \<and>
            Sort_loop \<rho> n g srtd =
              Sort_loop \<rho> (n + 1) (Sort_removeLeaves g (Sort_leafVertices (\<rho> n) g))
                (srtd @ [Sort_leafVertices (\<rho> n) g]))) \<and>
   (\<forall>l \<in> set (fst (fst (Sort \<rho> g))). l \<noteq> []) \<and>
   length (fst (fst (Sort \<rho> g))) \<le> Size g"
proof (intro conjI impI ballI)
  assume pos: "0 < Size g"
  show "if Sort_leafVertices (\<rho> n) g = []
       then \<exists>e. Sort_loop \<rho> n g srtd = ((srtd, Some e), g)
       else Size (Sort_removeLeaves g (Sort_leafVertices (\<rho> n) g)) < Size g \<and>
            Sort_loop \<rho> n g srtd =
              Sort_loop \<rho> (n + 1) (Sort_removeLeaves g (Sort_leafVertices (\<rho> n) g))
                (srtd @ [Sort_leafVertices (\<rho> n) g])"
  proof (cases "Sort_leafVertices (\<rho> n) g = []")
    case True
    with pos show ?thesis by (simp add: Sort_loop_stuck)
  next
    case False
    with pos Size_removeLeaves_less [OF False] Sort_loop_step [where \<rho> = \<rho> and n = n, OF pos False]
    show ?thesis by simp
  qed
next
  fix l assume "l \<in> set (fst (fst (Sort \<rho> g)))"
  then show "l \<noteq> []" unfolding Sort_def by (rule Sort_layers_nonempty)
next
  show "length (fst (fst (Sort \<rho> g))) \<le> Size g"
    unfolding Sort_def by (rule Sort_layers_length)
qed

theorem Sort_terminates_witness:
  "0 < Size chain \<and> Sort_leafVertices (stored_order 0) chain = [ns1] \<and>
   Size (Sort_removeLeaves chain [ns1]) < Size chain \<and>
   fst (fst (Sort stored_order chain)) = [[ns1], [podB]] \<and>
   length (fst (fst (Sort stored_order chain))) \<le> Size chain \<and>
   0 < Size cycle2 \<and> Sort_leafVertices (stored_order 0) cycle2 = [] \<and>
   (\<exists>e. Sort_loop stored_order 0 cycle2 [] = (([], Some e), cycle2))"
proof -
  have a: "0 < Size chain" by (simp add: Size_def edges_chain)
  have b: "Sort_leafVertices (stored_order 0) chain = [ns1]" by (rule leaves_chain)
  have c: "fst (fst (Sort stored_order chain)) = [[ns1], [podB]]" by code_simp
  have d: "0 < Size cycle2" by (simp add: Size_def edges_cycle2)
  have e: "Sort_leafVertices (stored_order 0) cycle2 = []" by (rule leaves_cycle2)
  from Sort_terminates [of chain stored_order 0 "[]"] a b
  have "Size (Sort_removeLeaves chain [ns1]) < Size chain \<and>
    length (fst (fst (Sort stored_order chain))) \<le> Size chain"
    by simp
  moreover from Sort_terminates [of cycle2 stored_order 0 "[]"] d e
  have "\<exists>e. Sort_loop stored_order 0 cycle2 [] = (([], Some e), cycle2)"
    by simp
  ultimately show ?thesis using a b c d e by simp
qed


section \<open>The cyclic-dependency failure\<close>

text \<open>
  C3. When a pass of Sort finds no leaf in a non-empty graph, Sort returns at once: its
  layers are exactly the layers \<open>srtd\<close> produced before this pass, no vertex is removed
  from the graph, and the failure carries every vertex and every edge of the graph that
  is left.
\<close>

theorem Sort_cyclic_dependency:
  assumes "0 < Size g" and "Sort_leafVertices (\<rho> n) g = []"
  shows "\<exists>e. Sort_loop \<rho> n g srtd = ((srtd, Some e), g) \<and>
             set (ids e) = vertexSet g \<and>
             set (Edges (cause e)) = (\<lambda>(a, b). \<lparr>From = a, To = b\<rparr>) ` edgeSet g"
  using assms by (simp add: Sort_loop_stuck NewError_def set_GetVertices set_GetEdges)

theorem Sort_cyclic_dependency_witness:
  "0 < Size cycle2 \<and> Sort_leafVertices (stored_order 0) cycle2 = [] \<and>
   vertexSet cycle2 = {podB, ns1} \<and> edgeSet cycle2 = {(podB, ns1), (ns1, podB)} \<and>
   (\<exists>e. Sort_loop stored_order 0 cycle2 [] = (([], Some e), cycle2) \<and>
        set (ids e) = {podB, ns1} \<and>
        set (Edges (cause e)) = {\<lparr>From = podB, To = ns1\<rparr>, \<lparr>From = ns1, To = podB\<rparr>})"
proof -
  have a: "0 < Size cycle2" by (simp add: Size_def edges_cycle2)
  have b: "Sort_leafVertices (stored_order 0) cycle2 = []" by (rule leaves_cycle2)
  have c: "vertexSet cycle2 = {podB, ns1}" by (simp add: vertexSet_def edges_cycle2)
  have d: "edgeSet cycle2 = {(podB, ns1), (ns1, podB)}"
    by (simp add: edgeSet_def edgeList_def edges_cycle2)
  from Sort_cyclic_dependency [where \<rho> = stored_order and n = 0 and srtd = "[]", OF a b] a b c d
  show ?thesis by simp
qed

section \<open>Sort consumes its graph\<close>

text \<open>
  C8. After a Sort that returns no error the graph is empty (\<open>Size\<close> is 0). After a
  failure the graph is not empty and holds exactly the vertices and the edges the
  diagnostic reports. In both cases nothing is rolled back: the vertices left in the
  graph are those of the input that were not placed in a returned layer.
\<close>

theorem Sort_consumes_graph:
  "(snd (fst (Sort \<rho> g)) = None \<longrightarrow> Size (snd (Sort \<rho> g)) = 0) \<and>
   (\<forall>e. snd (fst (Sort \<rho> g)) = Some e \<longrightarrow>
      0 < Size (snd (Sort \<rho> g)) \<and>
      set (ids e) = vertexSet (snd (Sort \<rho> g)) \<and>
      set (Edges (cause e)) = (\<lambda>(a, b). \<lparr>From = a, To = b\<rparr>) ` edgeSet (snd (Sort \<rho> g))) \<and>
   vertexSet (snd (Sort \<rho> g)) = vertexSet g - set (concat (fst (fst (Sort \<rho> g))))"
proof -
  have "vertexSet (snd (Sort \<rho> g)) = vertexSet g - set (concat (fst (fst (Sort \<rho> g))))"
    unfolding Sort_def vertexSet_def Sort_loop_residual [of \<rho> 0 g] keys_without
    by auto
  with Sort_loop_success [of \<rho> 0 g] Sort_loop_failure [of \<rho> 0 g] show ?thesis
    unfolding Sort_def by blast
qed

theorem Sort_consumes_graph_witness:
  "snd (fst (Sort stored_order chain)) = None \<and> Size (snd (Sort stored_order chain)) = 0 \<and>
   (\<exists>e. snd (fst (Sort stored_order cycle2)) = Some e \<and>
      set (ids e) = vertexSet (snd (Sort stored_order cycle2)) \<and>
      set (Edges (cause e)) =
        (\<lambda>(a, b). \<lparr>From = a, To = b\<rparr>) ` edgeSet (snd (Sort stored_order cycle2))) \<and>
   vertexSet (snd (Sort stored_order cycle2)) = vertexSet cycle2"
proof -
  have a: "snd (fst (Sort stored_order chain)) = None" by code_simp
  have "snd (fst (Sort stored_order cycle2)) \<noteq> None" by code_simp
  then obtain e where e: "snd (fst (Sort stored_order cycle2)) = Some e" by blast
  have l: "fst (fst (Sort stored_order cycle2)) = []" by code_simp
  from Sort_consumes_graph [of stored_order chain] a
  have "Size (snd (Sort stored_order chain)) = 0" by simp
  moreover from Sort_consumes_graph [of stored_order cycle2] e l
  have "set (ids e) = vertexSet (snd (Sort stored_order cycle2)) \<and>
      set (Edges (cause e)) =
        (\<lambda>(a, b). \<lparr>From = a, To = b\<rparr>) ` edgeSet (snd (Sort stored_order cycle2)) \<and>
      vertexSet (snd (Sort stored_order cycle2)) = vertexSet cycle2"
    by simp
  ultimately show ?thesis using a e by blast
qed

section \<open>The representation invariant\<close>

lemma vertexSet_dom: "vertexSet g = dom (map_of (edges g))"
  by (simp add: vertexSet_def dom_map_of_conv_image_fst)

lemma edgeSet_iff: "(a, b) \<in> edgeSet g \<longleftrightarrow> (\<exists>adj. (a, adj) \<in> set (edges g) \<and> b \<in> set adj)"
  by (auto simp: edgeSet_def edgeList_def)

lemma edgeSet_map_of:
  "distinct (map fst (edges g)) \<Longrightarrow>
   (a, b) \<in> edgeSet g \<longleftrightarrow> (\<exists>adj. map_of (edges g) a = Some adj \<and> b \<in> set adj)"
  by (simp add: edgeSet_iff)

lemma wellformed_map_of:
  "wellformed g \<longleftrightarrow>
     distinct (map fst (edges g)) \<and>
     (\<forall>k adj. map_of (edges g) k = Some adj \<longrightarrow>
        distinct adj \<and> set adj \<subseteq> vertexSet g)"
proof (cases "distinct (map fst (edges g))")
  case True
  then have "(\<forall>e \<in> set (edges g). distinct (snd e) \<and> set (snd e) \<subseteq> vertexSet g) \<longleftrightarrow>
    (\<forall>k adj. map_of (edges g) k = Some adj \<longrightarrow> distinct adj \<and> set adj \<subseteq> vertexSet g)"
    by (simp add: Ball_def)
  with True show ?thesis by (simp add: wellformed_def)
next
  case False
  then show ?thesis by (simp add: wellformed_def)
qed

lemma wellformed_New: "wellformed New"
  by (simp add: wellformed_def New_def)

lemma vertexSet_update:
  "vertexSet (g\<lparr>edges := AList.update k adj (edges g)\<rparr>) = insert k (vertexSet g)"
  by (simp add: vertexSet_dom update_conv')

lemma wellformed_update:
  assumes "wellformed g" and "distinct adj" and "set adj \<subseteq> insert k (vertexSet g)"
  shows "wellformed (g\<lparr>edges := AList.update k adj (edges g)\<rparr>)"
proof -
  let ?g' = "g\<lparr>edges := AList.update k adj (edges g)\<rparr>"
  from assms(1) have d: "distinct (map fst (edges g))"
    and m: "\<And>k' adj'. map_of (edges g) k' = Some adj' \<Longrightarrow>
              distinct adj' \<and> set adj' \<subseteq> vertexSet g"
    by (simp_all add: wellformed_map_of)
  have "distinct (map fst (edges ?g'))" using d by (simp add: distinct_update)
  moreover have "distinct adj' \<and> set adj' \<subseteq> vertexSet ?g'"
    if "map_of (edges ?g') k' = Some adj'" for k' adj'
  proof (cases "k' = k")
    case True
    with that have "adj' = adj" by (simp add: update_conv')
    with assms(2,3) show ?thesis by (simp add: vertexSet_update)
  next
    case False
    with that have "map_of (edges g) k' = Some adj'" by (simp add: update_conv')
    from m [OF this] show ?thesis by (auto simp: vertexSet_update)
  qed
  ultimately show ?thesis unfolding wellformed_map_of by blast
qed

lemma wellformed_AddVertex: "wellformed g \<Longrightarrow> wellformed (AddVertex g v)"
  by (simp add: AddVertex_def wellformed_update)

lemma index_map_wellformed:
  assumes "wellformed g"
  shows "distinct (index_map (edges g) k) \<and> set (index_map (edges g) k) \<subseteq> vertexSet g"
proof (cases "map_of (edges g) k")
  case None
  then show ?thesis by (simp add: index_map_def)
next
  case (Some adj)
  with assms have "distinct adj \<and> set adj \<subseteq> vertexSet g"
    unfolding wellformed_map_of by blast
  with Some show ?thesis by (simp add: index_map_def)
qed

lemma exists_map_vertexSet: "exists_map (edges g) v \<longleftrightarrow> v \<in> vertexSet g"
  by (auto simp: exists_map_def vertexSet_dom)

lemma vertexSet_AddVertex: "vertexSet (AddVertex g v) = insert v (vertexSet g)"
proof (cases "exists_map (edges g) v")
  case True
  then have "v \<in> vertexSet g" by (simp add: exists_map_vertexSet)
  with True show ?thesis by (simp add: AddVertex_def insert_absorb)
next
  case False
  then show ?thesis by (simp add: AddVertex_def vertexSet_update)
qed

lemma AddEdge_AddVertex:
  "AddEdge g a b =
     (if \<not> isAdjacent (AddVertex (AddVertex g a) b) a b
      then (AddVertex (AddVertex g a) b)\<lparr>edges :=
             AList.update a (index_map (edges (AddVertex (AddVertex g a) b)) a @ [b])
               (edges (AddVertex (AddVertex g a) b))\<rparr>
      else AddVertex (AddVertex g a) b)"
  unfolding AddEdge_def AddVertex_def Let_def by (rule refl)

lemma vertexSet_AddEdge: "vertexSet (AddEdge g a b) = insert a (insert b (vertexSet g))"
proof -
  let ?g2 = "AddVertex (AddVertex g a) b"
  have v: "vertexSet ?g2 = insert a (insert b (vertexSet g))"
    by (auto simp: vertexSet_AddVertex)
  show ?thesis
  proof (cases "isAdjacent ?g2 a b")
    case True
    then show ?thesis by (simp add: AddEdge_AddVertex v)
  next
    case False
    then have "vertexSet (AddEdge g a b) = insert a (vertexSet ?g2)"
      by (simp add: AddEdge_AddVertex vertexSet_update)
    with v show ?thesis by auto
  qed
qed

lemma wellformed_AddEdge:
  assumes "wellformed g"
  shows "wellformed (AddEdge g a b)"
proof -
  let ?g2 = "AddVertex (AddVertex g a) b"
  have w2: "wellformed ?g2" using assms by (intro wellformed_AddVertex)
  have b: "b \<in> vertexSet ?g2" by (simp add: vertexSet_AddVertex)
  show ?thesis
  proof (cases "isAdjacent ?g2 a b")
    case True
    with w2 show ?thesis by (simp add: AddEdge_AddVertex)
  next
    case False
    have ex: "exists_map (edges ?g2) a"
      by (simp add: exists_map_vertexSet vertexSet_AddVertex)
    with False have nb: "b \<notin> set (index_map (edges ?g2) a)"
      by (simp add: isAdjacent_def)
    have "wellformed (?g2\<lparr>edges := AList.update a (index_map (edges ?g2) a @ [b]) (edges ?g2)\<rparr>)"
    proof (rule wellformed_update [OF w2])
      from nb index_map_wellformed [OF w2, of a] show "distinct (index_map (edges ?g2) a @ [b])"
        by simp
      from index_map_wellformed [OF w2, of a] b
      show "set (index_map (edges ?g2) a @ [b]) \<subseteq> insert a (vertexSet ?g2)"
        by auto
    qed
    with False show ?thesis by (simp add: AddEdge_AddVertex)
  qed
qed

lemma wellformed_exec: "wellformed g \<Longrightarrow> wellformed (exec g c)"
  by (cases c) (simp_all add: wellformed_AddVertex wellformed_AddEdge)

lemma wellformed_foldl: "wellformed g \<Longrightarrow> wellformed (foldl exec g cs)"
  by (induction cs arbitrary: g) (simp_all add: wellformed_exec)

lemma wellformed_build: "wellformed (build cs)"
  unfolding build_def by (rule wellformed_foldl) (rule wellformed_New)

lemma edgeSet_update:
  assumes "distinct (map fst (edges g))"
  shows "edgeSet (g\<lparr>edges := AList.update k adj (edges g)\<rparr>) =
           {(a, b). (a, b) \<in> edgeSet g \<and> a \<noteq> k} \<union> {k} \<times> set adj"
proof -
  let ?g' = "g\<lparr>edges := AList.update k adj (edges g)\<rparr>"
  have d': "distinct (map fst (edges ?g'))" using assms by (simp add: distinct_update)
  have "(a, b) \<in> edgeSet ?g' \<longleftrightarrow> (a, b) \<in> edgeSet g \<and> a \<noteq> k \<or> a = k \<and> b \<in> set adj" for a b
    unfolding edgeSet_map_of [OF d'] edgeSet_map_of [OF assms]
    by (simp add: update_conv')
  then show ?thesis by auto
qed

lemma edgeSet_AddVertex:
  assumes "distinct (map fst (edges g))"
  shows "edgeSet (AddVertex g v) = edgeSet g"
proof (cases "exists_map (edges g) v")
  case True
  then show ?thesis by (simp add: AddVertex_def)
next
  case False
  then have "map_of (edges g) v = None" by (simp add: exists_map_def)
  then have "\<And>b. (v, b) \<notin> edgeSet g" by (simp add: edgeSet_map_of [OF assms])
  with False show ?thesis
    by (auto simp: AddVertex_def edgeSet_update [OF assms])
qed

lemma distinct_AddVertex:
  "distinct (map fst (edges g)) \<Longrightarrow> distinct (map fst (edges (AddVertex g v)))"
  by (simp add: AddVertex_def distinct_update)

lemma edgeSet_index_map:
  "distinct (map fst (edges g)) \<Longrightarrow> (a, b) \<in> edgeSet g \<longleftrightarrow> b \<in> set (index_map (edges g) a)"
  by (auto simp: edgeSet_map_of index_map_def split: option.splits)

lemma edgeSet_AddEdge:
  assumes "distinct (map fst (edges g))"
  shows "edgeSet (AddEdge g a b) = insert (a, b) (edgeSet g)"
proof -
  let ?g2 = "AddVertex (AddVertex g a) b"
  have d2: "distinct (map fst (edges ?g2))" using assms by (intro distinct_AddVertex)
  have e2: "edgeSet ?g2 = edgeSet g"
    using assms by (simp add: edgeSet_AddVertex distinct_AddVertex)
  have ex: "exists_map (edges ?g2) a"
    by (simp add: exists_map_vertexSet vertexSet_AddVertex)
  show ?thesis
  proof (cases "isAdjacent ?g2 a b")
    case True
    with ex have "(a, b) \<in> edgeSet ?g2"
      by (simp add: isAdjacent_def edgeSet_index_map [OF d2])
    with True e2 show ?thesis by (auto simp: AddEdge_AddVertex)
  next
    case False
    have "(x, y) \<in> edgeSet (AddEdge g a b) \<longleftrightarrow> (x, y) \<in> insert (a, b) (edgeSet g)" for x y
      using False
      by (auto simp: AddEdge_AddVertex edgeSet_update [OF d2] edgeSet_index_map [OF d2] e2 [symmetric])
    then show ?thesis by auto
  qed
qed

lemma vertexSet_foldl:
  "vertexSet (foldl exec g cs) = vertexSet g \<union> (\<Union>c \<in> set cs. callVertices c)"
proof (induction cs arbitrary: g)
  case Nil
  show ?case by simp
next
  case (Cons c cs)
  have "vertexSet (exec g c) = vertexSet g \<union> callVertices c"
    by (cases c) (auto simp: vertexSet_AddVertex vertexSet_AddEdge)
  then show ?case by (auto simp: Cons.IH)
qed

lemma edgeSet_foldl:
  "wellformed g \<Longrightarrow> edgeSet (foldl exec g cs) = edgeSet g \<union> (\<Union>c \<in> set cs. callEdges c)"
proof (induction cs arbitrary: g)
  case Nil
  show ?case by simp
next
  case (Cons c cs)
  from Cons.prems have d: "distinct (map fst (edges g))" by (simp add: wellformed_def)
  have "edgeSet (exec g c) = edgeSet g \<union> callEdges c"
    by (cases c) (auto simp: edgeSet_AddVertex [OF d] edgeSet_AddEdge [OF d])
  moreover have "wellformed (exec g c)" using Cons.prems by (rule wellformed_exec)
  ultimately show ?case by (auto simp: Cons.IH)
qed

lemma vertexSet_build: "vertexSet (build cs) = (\<Union>c \<in> set cs. callVertices c)"
  by (simp add: build_def vertexSet_foldl) (simp add: vertexSet_def New_def)

lemma edgeSet_build: "edgeSet (build cs) = (\<Union>c \<in> set cs. callEdges c)"
  by (simp add: build_def edgeSet_foldl wellformed_New) (simp add: edgeSet_def edgeList_def New_def)

text \<open>
  C7. After any sequence of \<^verbatim>\<open>AddVertex\<close> and \<^verbatim>\<open>AddEdge\<close> calls on \<^verbatim>\<open>New()\<close>, both
  ends of every edge are keys of the adjacency map, no dependency set \<^verbatim>\<open>g.edges[v]\<close> holds
  an entry twice, and (the map being a map) no key occurs twice.
\<close>

theorem build_invariant:
  "(\<forall>(a, b) \<in> edgeSet (build cs).
      exists_map (edges (build cs)) a \<and> exists_map (edges (build cs)) b) \<and>
   (\<forall>v. distinct (index_map (edges (build cs)) v)) \<and>
   distinct (map fst (edges (build cs)))"
proof -
  have w: "wellformed (build cs)" by (rule wellformed_build)
  then have d: "distinct (map fst (edges (build cs)))" by (simp add: wellformed_def)
  have "a \<in> vertexSet (build cs) \<and> b \<in> vertexSet (build cs)"
    if "(a, b) \<in> edgeSet (build cs)" for a b
  proof -
    from that obtain adj where adj: "map_of (edges (build cs)) a = Some adj" "b \<in> set adj"
      by (auto simp: edgeSet_map_of [OF d])
    then have "a \<in> vertexSet (build cs)" by (auto simp: vertexSet_dom)
    moreover from w adj have "b \<in> vertexSet (build cs)" unfolding wellformed_map_of by blast
    ultimately show ?thesis by simp
  qed
  then have "\<forall>(a, b) \<in> edgeSet (build cs).
      exists_map (edges (build cs)) a \<and> exists_map (edges (build cs)) b"
    by (auto simp: exists_map_vertexSet)
  moreover have "\<forall>v. distinct (index_map (edges (build cs)) v)"
    using index_map_wellformed [OF w] by simp
  ultimately show ?thesis using d by simp
qed

theorem build_invariant_witness:
  "(podB, ns1) \<in> edgeSet chain \<and> exists_map (edges chain) podB \<and>
   exists_map (edges chain) ns1 \<and> distinct (index_map (edges chain) podB) \<and>
   index_map (edges chain) podB = [ns1] \<and> index_map (edges chain) ns1 = []"
proof -
  have a: "(podB, ns1) \<in> edgeSet chain"
    by (simp add: edgeSet_def edgeList_def edges_chain)
  have b: "index_map (edges chain) podB = [ns1] \<and> index_map (edges chain) ns1 = []"
    by (simp add: index_map_def edges_chain examples_differ)
  from build_invariant [of "[CallAddVertex ns1, CallAddVertex podB, CallAddEdge podB ns1]"] a b
  show ?thesis unfolding chain_def by auto
qed

section \<open>The comparators are strict total orders\<close>

lemma metaKey_inj: "metaKey a = metaKey b \<Longrightarrow> a = b"
  by (simp add: metaKey_def ObjMetadata.equality GroupKind.equality)

lemma edgeKey_inj: "edgeKey a = edgeKey b \<Longrightarrow> a = b"
  by (simp add: edgeKey_def Edge.equality metaKey_inj)

lemma SortableMetas_Less_key: "SortableMetas_Less a b \<longleftrightarrow> metaKey a < metaKey b"
  by (simp add: SortableMetas_Less_def metaKey_def)

lemma metaIsLessThan_key: "metaIsLessThan a b \<longleftrightarrow> metaKey a < metaKey b"
  by (auto simp: metaIsLessThan_def metaKey_def)

lemma SortableEdges_Less_key: "SortableEdges_Less a b \<longleftrightarrow> edgeKey a < edgeKey b"
proof (cases "From a = From b")
  case True
  then show ?thesis
    by (simp add: SortableEdges_Less_def edgeKey_def metaIsLessThan_key)
next
  case False
  then have "metaKey (From a) \<noteq> metaKey (From b)" using metaKey_inj by blast
  with False show ?thesis
    by (auto simp: SortableEdges_Less_def edgeKey_def metaIsLessThan_key)
qed

section \<open>sort.Sort sorts\<close>

lemma sorted_sort_insert:
  fixes f :: "'a \<Rightarrow> 'k::linorder"
  assumes "\<And>a b. lt a b \<longleftrightarrow> f a < f b" and "sorted (map f xs)"
  shows "sorted (map f (sort_insert lt x xs))"
  using assms(2)
proof (induction xs)
  case Nil
  show ?case by simp
next
  case (Cons y ys)
  have s: "set (sort_insert c x ys) = insert x (set ys)" for c
    using mset_sort_insert [of c x ys] by (metis set_mset_add_mset_insert set_mset_mset)
  from Cons show ?case by (auto simp: assms(1) s)
qed

lemma sorted_sort_Sort:
  fixes f :: "'a \<Rightarrow> 'k::linorder"
  assumes "\<And>a b. lt a b \<longleftrightarrow> f a < f b"
  shows "sorted (map f (sort_Sort lt xs))"
proof (induction xs)
  case Nil
  show ?case by (simp add: sort_Sort_def)
next
  case (Cons x xs)
  then have "sorted (map f (sort_insert lt x (sort_Sort lt xs)))"
    by (rule sorted_sort_insert [OF assms])
  then show ?case by (simp add: sort_Sort_def)
qed

lemma distinct_sort_Sort: "distinct (sort_Sort lt xs) \<longleftrightarrow> distinct xs"
  using mset_sort_Sort [of lt xs] by (rule mset_eq_imp_distinct_iff)

lemma strict_sorted_sort_Sort:
  fixes f :: "'a \<Rightarrow> 'k::linorder"
  assumes lt: "\<And>a b. lt a b \<longleftrightarrow> f a < f b" and inj: "\<And>a b. f a = f b \<Longrightarrow> a = b"
    and d: "distinct xs"
  shows "sorted_wrt lt (sort_Sort lt xs)"
proof -
  have "inj_on f (set (sort_Sort lt xs))" using inj by (auto intro: inj_onI)
  with d have "distinct (map f (sort_Sort lt xs))"
    by (simp add: distinct_map distinct_sort_Sort)
  with sorted_sort_Sort [of lt f xs, OF lt] have "sorted_wrt (<) (map f (sort_Sort lt xs))"
    by (simp add: strict_sorted_iff)
  moreover have "lt = (\<lambda>a b. f a < f b)" using lt by (intro ext) simp
  ultimately show ?thesis by (simp add: sorted_wrt_map)
qed

lemma sorted_wrt_unique:
  fixes f :: "'a \<Rightarrow> 'k::linorder"
  assumes lt: "\<And>a b. lt a b \<longleftrightarrow> f a < f b" and inj: "\<And>a b. f a = f b \<Longrightarrow> a = b"
    and "sorted_wrt lt xs" and "sorted_wrt lt ys" and "set xs = set ys"
  shows "xs = ys"
proof -
  have "lt = (\<lambda>a b. f a < f b)" using lt by (intro ext) simp
  with assms(3,4) have "sorted_wrt (<) (map f xs)" "sorted_wrt (<) (map f ys)"
    by (simp_all add: sorted_wrt_map)
  moreover have "set (map f ys) = set (map f xs)" using assms(5) by simp
  ultimately have "map f ys = map f xs" by (rule strict_sorted_equal)
  moreover have "inj f" using inj by (auto intro: injI)
  ultimately show ?thesis by (simp add: inj_map_eq_map)
qed

section \<open>GetVertices and GetEdges\<close>

lemma distinct_range_keys:
  "distinct (map fst (range_map \<rho> m)) \<longleftrightarrow> distinct (map fst m)"
proof -
  have "mset (map fst (range_map \<rho> m)) = mset (map fst m)"
    by (simp add: mset_range_map)
  then show ?thesis by (rule mset_eq_imp_distinct_iff)
qed

lemma distinct_edge_entries:
  assumes "distinct (map fst m)" and "\<forall>e \<in> set m. distinct (snd e)"
  shows "distinct (concat (map (\<lambda>(from, toList). map (\<lambda>to. \<lparr>From = from, To = to\<rparr>) toList) m))"
  using assms
proof (induction m)
  case Nil
  show ?case by simp
next
  case (Cons e m)
  obtain k adj where e: "e = (k, adj)" by (cases e)
  have "distinct (map (\<lambda>to. \<lparr>From = k, To = to\<rparr>) adj)"
    using Cons.prems(2) by (simp add: e distinct_map inj_on_def)
  moreover have "set (map (\<lambda>to. \<lparr>From = k, To = to\<rparr>) adj) \<inter>
      set (concat (map (\<lambda>(from, toList). map (\<lambda>to. \<lparr>From = from, To = to\<rparr>) toList) m)) = {}"
    using Cons.prems(1) by (force simp: e)
  moreover have "distinct (concat (map (\<lambda>(from, toList). map (\<lambda>to. \<lparr>From = from, To = to\<rparr>) toList) m))"
    using Cons by simp
  ultimately show ?case unfolding e by (simp only: list.map concat.simps distinct_append prod.case)
qed

lemma GetVertices_sorted:
  assumes "wellformed g"
  shows "sorted_wrt SortableMetas_Less (GetVertices \<rho> g)"
  unfolding GetVertices_def
proof (rule strict_sorted_sort_Sort [where f = metaKey])
  show "distinct (map fst (range_map \<rho> (edges g)))"
    using assms by (simp add: distinct_range_keys wellformed_def)
qed (simp_all add: SortableMetas_Less_key metaKey_inj)

lemma GetEdges_sorted:
  assumes "wellformed g"
  shows "sorted_wrt SortableEdges_Less (GetEdges \<rho> g)"
  unfolding GetEdges_def
proof (rule strict_sorted_sort_Sort [where f = edgeKey])
  show "distinct (concat (map (\<lambda>(from, toList). map (\<lambda>to. \<lparr>From = from, To = to\<rparr>) toList)
      (range_map \<rho> (edges g))))"
    using assms
    by (intro distinct_edge_entries) (simp_all add: distinct_range_keys wellformed_def set_range_map)
qed (simp_all add: SortableEdges_Less_key edgeKey_inj)

lemma GetVertices_determined:
  assumes "wellformed g" and "wellformed g'" and "vertexSet g' = vertexSet g"
  shows "GetVertices \<rho>' g' = GetVertices \<rho> g"
proof (rule sorted_wrt_unique [where f = metaKey and lt = SortableMetas_Less])
  show "sorted_wrt SortableMetas_Less (GetVertices \<rho>' g')" using assms(2) by (rule GetVertices_sorted)
  show "sorted_wrt SortableMetas_Less (GetVertices \<rho> g)" using assms(1) by (rule GetVertices_sorted)
  show "set (GetVertices \<rho>' g') = set (GetVertices \<rho> g)" by (simp add: set_GetVertices assms(3))
qed (simp_all add: SortableMetas_Less_key metaKey_inj)

lemma GetEdges_determined:
  assumes "wellformed g" and "wellformed g'" and "edgeSet g' = edgeSet g"
  shows "GetEdges \<rho>' g' = GetEdges \<rho> g"
proof (rule sorted_wrt_unique [where f = edgeKey and lt = SortableEdges_Less])
  show "sorted_wrt SortableEdges_Less (GetEdges \<rho>' g')" using assms(2) by (rule GetEdges_sorted)
  show "sorted_wrt SortableEdges_Less (GetEdges \<rho> g)" using assms(1) by (rule GetEdges_sorted)
  show "set (GetEdges \<rho>' g') = set (GetEdges \<rho> g)" by (simp add: set_GetEdges assms(3))
qed (simp_all add: SortableEdges_Less_key edgeKey_inj)

text \<open>
  C4. \<^verbatim>\<open>GetVertices\<close> returns the vertices of the graph in strictly ascending order of
  their (group, kind, namespace, name) tuples, and \<^verbatim>\<open>GetEdges\<close> returns its edges in
  strictly ascending order of the pair (tuple of From, tuple of To). So the two results
  are the same sequences whatever iteration order the runtime picks (repeated calls), and
  for two call sequences that state the same vertices and edges (in particular the same
  calls in another order).
\<close>

theorem GetVertices_GetEdges_deterministic:
  "sorted_wrt (\<lambda>a b. metaKey a < metaKey b) (GetVertices \<rho> (build cs)) \<and>
   set (GetVertices \<rho> (build cs)) = vertexSet (build cs) \<and>
   sorted_wrt (\<lambda>a b. (metaKey (From a), metaKey (To a)) < (metaKey (From b), metaKey (To b)))
     (GetEdges \<rho> (build cs)) \<and>
   set (GetEdges \<rho> (build cs)) = (\<lambda>(a, b). \<lparr>From = a, To = b\<rparr>) ` edgeSet (build cs) \<and>
   (vertexSet (build cs') = vertexSet (build cs) \<and> edgeSet (build cs') = edgeSet (build cs) \<longrightarrow>
      GetVertices \<rho>' (build cs') = GetVertices \<rho> (build cs) \<and>
      GetEdges \<rho>' (build cs') = GetEdges \<rho> (build cs)) \<and>
   (set cs' = set cs \<longrightarrow>
      GetVertices \<rho>' (build cs') = GetVertices \<rho> (build cs) \<and>
      GetEdges \<rho>' (build cs') = GetEdges \<rho> (build cs))"
proof -
  have w: "wellformed (build cs)" and w': "wellformed (build cs')" by (rule wellformed_build)+
  have "SortableMetas_Less = (\<lambda>a b. metaKey a < metaKey b)"
    by (intro ext) (rule SortableMetas_Less_key)
  with GetVertices_sorted [OF w, of \<rho>]
  have a: "sorted_wrt (\<lambda>a b. metaKey a < metaKey b) (GetVertices \<rho> (build cs))" by simp
  have "SortableEdges_Less =
      (\<lambda>a b. (metaKey (From a), metaKey (To a)) < (metaKey (From b), metaKey (To b)))"
    by (intro ext) (simp add: SortableEdges_Less_key edgeKey_def)
  with GetEdges_sorted [OF w, of \<rho>]
  have b: "sorted_wrt (\<lambda>a b. (metaKey (From a), metaKey (To a)) < (metaKey (From b), metaKey (To b)))
     (GetEdges \<rho> (build cs))" by simp
  have c: "GetVertices \<rho>' (build cs') = GetVertices \<rho> (build cs) \<and>
      GetEdges \<rho>' (build cs') = GetEdges \<rho> (build cs)"
    if "vertexSet (build cs') = vertexSet (build cs)" "edgeSet (build cs') = edgeSet (build cs)"
    using that GetVertices_determined [OF w w'] GetEdges_determined [OF w w'] by simp
  have d: "GetVertices \<rho>' (build cs') = GetVertices \<rho> (build cs) \<and>
      GetEdges \<rho>' (build cs') = GetEdges \<rho> (build cs)"
    if "set cs' = set cs"
    by (rule c) (simp_all add: vertexSet_build edgeSet_build that)
  from a b c d show ?thesis by (simp add: set_GetVertices set_GetEdges)
qed

theorem GetVertices_GetEdges_deterministic_witness:
  "set [CallAddEdge podB ns1, CallAddVertex podB, CallAddVertex ns1, CallAddEdge podB ns1] =
     set [CallAddVertex ns1, CallAddVertex podB, CallAddEdge podB ns1] \<and>
   GetVertices (stored_order 0) chain = [ns1, podB] \<and>
   GetVertices (by_name_length 0)
     (build [CallAddEdge podB ns1, CallAddVertex podB, CallAddVertex ns1, CallAddEdge podB ns1]) =
     [ns1, podB] \<and>
   GetEdges (stored_order 0) chain = [\<lparr>From = podB, To = ns1\<rparr>] \<and>
   GetEdges (by_name_length 0)
     (build [CallAddEdge podB ns1, CallAddVertex podB, CallAddVertex ns1, CallAddEdge podB ns1]) =
     [\<lparr>From = podB, To = ns1\<rparr>] \<and>
   edges (build [CallAddEdge podB ns1, CallAddVertex podB, CallAddVertex ns1, CallAddEdge podB ns1])
     \<noteq> edges chain"
proof -
  let ?cs' = "[CallAddEdge podB ns1, CallAddVertex podB, CallAddVertex ns1, CallAddEdge podB ns1]"
  let ?cs = "[CallAddVertex ns1, CallAddVertex podB, CallAddEdge podB ns1]"
  have s: "set ?cs' = set ?cs" by auto
  have v: "GetVertices (stored_order 0) chain = [ns1, podB]" by code_simp
  have e: "GetEdges (stored_order 0) chain = [\<lparr>From = podB, To = ns1\<rparr>]" by code_simp
  have n: "edges (build ?cs') \<noteq> edges chain" by code_simp
  from GetVertices_GetEdges_deterministic [of "stored_order 0" ?cs ?cs' "by_name_length 0"] s v e n
  show ?thesis unfolding chain_def by simp
qed

section \<open>Removing the leaves of a pass\<close>

lemma set_without:
  "set (without S m) = (\<lambda>(v, adj). (v, filter (\<lambda>a. a \<notin> S) adj)) ` {e \<in> set m. fst e \<notin> S}"
  by (auto simp: without_def split_def)

lemma vertexSet_removeLeaves: "vertexSet (Sort_removeLeaves g ls) = vertexSet g - set ls"
  by (auto simp: vertexSet_def edges_removeLeaves_without keys_without)

lemma edgeSet_removeLeaves:
  "(a, b) \<in> edgeSet (Sort_removeLeaves g ls) \<longleftrightarrow>
     (a, b) \<in> edgeSet g \<and> a \<notin> set ls \<and> b \<notin> set ls"
  unfolding edgeSet_iff edges_removeLeaves_without set_without by force

lemma distinct_removeLeaves:
  "distinct (map fst (edges g)) \<Longrightarrow> distinct (map fst (edges (Sort_removeLeaves g ls)))"
  by (simp add: edges_removeLeaves_without keys_without)

lemma wellformed_removeLeaves:
  assumes "wellformed g"
  shows "wellformed (Sort_removeLeaves g ls)"
proof -
  let ?g' = "Sort_removeLeaves g ls"
  from assms have d: "distinct (map fst (edges g))"
    and c: "\<And>e. e \<in> set (edges g) \<Longrightarrow> distinct (snd e) \<and> set (snd e) \<subseteq> vertexSet g"
    by (simp_all add: wellformed_def)
  have "distinct (snd e') \<and> set (snd e') \<subseteq> vertexSet ?g'" if "e' \<in> set (edges ?g')" for e'
  proof -
    from that obtain v adj where e: "(v, adj) \<in> set (edges g)"
      and e': "e' = (v, filter (\<lambda>a. a \<notin> set ls) adj)"
      by (auto simp: edges_removeLeaves_without set_without)
    from c [OF e] show ?thesis by (auto simp: e' vertexSet_removeLeaves)
  qed
  with distinct_removeLeaves [OF d] show ?thesis by (simp add: wellformed_def)
qed

section \<open>Leaves\<close>

lemma leaf_iff:
  assumes "distinct (map fst (edges g))"
  shows "v \<in> set (Sort_leafVertices \<rho> g) \<longleftrightarrow> v \<in> vertexSet g \<and> (\<forall>b. (v, b) \<notin> edgeSet g)"
proof
  assume "v \<in> set (Sort_leafVertices \<rho> g)"
  then have e: "(v, []) \<in> set (edges g)" by (simp add: set_leafVertices)
  then have "map_of (edges g) v = Some []" using assms by simp
  then have "\<forall>b. (v, b) \<notin> edgeSet g" by (simp add: edgeSet_map_of [OF assms])
  moreover from e have "v \<in> vertexSet g" by (force simp: vertexSet_def)
  ultimately show "v \<in> vertexSet g \<and> (\<forall>b. (v, b) \<notin> edgeSet g)" by simp
next
  assume a: "v \<in> vertexSet g \<and> (\<forall>b. (v, b) \<notin> edgeSet g)"
  then obtain adj where e: "(v, adj) \<in> set (edges g)" by (auto simp: vertexSet_def)
  have "adj = []"
  proof (cases adj)
    case Nil
    then show ?thesis .
  next
    case (Cons b bs)
    with e have "(v, b) \<in> edgeSet g" by (auto simp: edgeSet_iff)
    with a show ?thesis by simp
  qed
  with e show "v \<in> set (Sort_leafVertices \<rho> g)" by (simp add: set_leafVertices)
qed

lemma acyclic_has_leaf:
  assumes w: "wellformed g" and a: "acyclic (edgeSet g)" and pos: "0 < Size g"
  shows "Sort_leafVertices \<rho> g \<noteq> []"
proof -
  from w have d: "distinct (map fst (edges g))" by (simp add: wellformed_def)
  have closed: "b \<in> vertexSet g" if "(x, b) \<in> edgeSet g" for x b
  proof -
    from that obtain adj where "(x, adj) \<in> set (edges g)" "b \<in> set adj"
      by (auto simp: edgeSet_iff)
    moreover from w have "\<forall>e \<in> set (edges g). set (snd e) \<subseteq> vertexSet g"
      by (simp add: wellformed_def)
    ultimately show ?thesis by fastforce
  qed
  have "finite (edgeSet g)" by (simp add: edgeSet_def)
  then have wf: "wf ((edgeSet g)\<inverse>)" using a by (rule finite_acyclic_wf_converse)
  from pos obtain x where "x \<in> vertexSet g"
    by (cases "edges g") (auto simp: Size_def vertexSet_def)
  with wf obtain z where z: "z \<in> vertexSet g"
    and min: "\<And>y. (y, z) \<in> (edgeSet g)\<inverse> \<Longrightarrow> y \<notin> vertexSet g"
    by (rule wfE_min) blast
  have "(z, b) \<notin> edgeSet g" for b
  proof
    assume e: "(z, b) \<in> edgeSet g"
    then have "b \<notin> vertexSet g" using min [of b] by simp
    with closed [OF e] show False by simp
  qed
  with z have "z \<in> set (Sort_leafVertices \<rho> g)" by (simp add: leaf_iff [OF d])
  then show ?thesis by auto
qed

lemma mset_layer_rest:
  assumes "distinct (map fst (edges g))"
  shows "mset (Sort_leafVertices \<rho> g) +
         mset (map fst (edges (Sort_removeLeaves g (Sort_leafVertices \<rho> g)))) =
         mset (map fst (edges g))"
proof -
  let ?ls = "Sort_leafVertices \<rho> g"
  let ?leaf = "\<lambda>e :: ObjMetadata \<times> ObjMetadataSet. snd e = []"
  have "mset (filter ?leaf (range_map \<rho> (edges g))) = filter_mset ?leaf (mset (edges g))"
    by (simp add: mset_range_map)
  then have "mset (map fst (filter ?leaf (range_map \<rho> (edges g)))) =
      image_mset fst (filter_mset ?leaf (mset (edges g)))"
    by (simp only: mset_map)
  then have l: "mset ?ls = image_mset fst (filter_mset ?leaf (mset (edges g)))"
    by (simp add: Sort_leafVertices_def split_def)
  have "fst e \<notin> set ?ls \<longleftrightarrow> \<not> ?leaf e" if "e \<in> set (edges g)" for e
  proof -
    obtain v adj where e: "e = (v, adj)" by (cases e)
    with that assms have m: "map_of (edges g) v = Some adj" by simp
    have "(v, []) \<in> set (edges g) \<longleftrightarrow> map_of (edges g) v = Some []"
      using assms by simp
    with m have "(v, []) \<in> set (edges g) \<longleftrightarrow> adj = []" by auto
    then show ?thesis by (simp add: e set_leafVertices)
  qed
  then have "filter (\<lambda>(v, adj). v \<notin> set ?ls) (edges g) = filter (\<lambda>e. \<not> ?leaf e) (edges g)"
    by (intro filter_cong) (auto simp: split_def)
  then have "map fst (edges (Sort_removeLeaves g ?ls)) = map fst (filter (\<lambda>e. \<not> ?leaf e) (edges g))"
    by (simp add: edges_removeLeaves o_def split_def)
  then have r: "mset (map fst (edges (Sort_removeLeaves g ?ls))) =
      image_mset fst (filter_mset (\<lambda>e. \<not> ?leaf e) (mset (edges g)))"
    by simp
  show ?thesis
    unfolding l r by (simp flip: image_mset_union)
qed

section \<open>Layer indices\<close>

lemma layerIndex_Some: "v \<in> set (concat ls) \<Longrightarrow> \<exists>i. layerIndex ls v = Some i"
  by (induction ls) auto

lemma layerIndex_member:
  "layerIndex ls v = Some i \<Longrightarrow> i < length ls \<and> v \<in> set (ls ! i)"
proof (induction ls arbitrary: i)
  case Nil
  then show ?case by simp
next
  case (Cons l ls)
  then show ?case by (cases "v \<in> set l") (auto simp: nth_Cons')
qed

section \<open>Sort on an acyclic graph\<close>

lemma acyclic_removeLeaves:
  assumes "acyclic (edgeSet g)"
  shows "acyclic (edgeSet (Sort_removeLeaves g ls))"
proof (rule acyclic_subset [OF assms])
  show "edgeSet (Sort_removeLeaves g ls) \<subseteq> edgeSet g"
    by (auto simp: edgeSet_removeLeaves)
qed

lemma Sort_loop_acyclic:
  "wellformed g \<Longrightarrow> acyclic (edgeSet g) \<Longrightarrow>
     snd (fst (Sort_loop \<rho> n g [])) = None \<and>
     mset (concat (fst (fst (Sort_loop \<rho> n g [])))) = mset (map fst (edges g)) \<and>
     (\<forall>a b. (a, b) \<in> edgeSet g \<longrightarrow>
        (\<exists>i j. layerIndex (fst (fst (Sort_loop \<rho> n g []))) b = Some i \<and>
               layerIndex (fst (fst (Sort_loop \<rho> n g []))) a = Some j \<and> i < j))"
proof (induction n g rule: Sort_loop_induct [where \<rho> = \<rho>])
  case (empty n g)
  then have "edges g = []" by (simp add: Size_def)
  with empty show ?case by (simp add: Sort_loop_empty edgeSet_def edgeList_def)
next
  case (stuck n g)
  with acyclic_has_leaf [of g "\<rho> n"] show ?case by simp
next
  case (step n g)
  let ?lv = "Sort_leafVertices (\<rho> n) g"
  let ?g' = "Sort_removeLeaves g ?lv"
  let ?R' = "Sort_loop \<rho> (n + 1) ?g' []"
  let ?L' = "fst (fst ?R')"
  from step.prems have d: "distinct (map fst (edges g))" by (simp add: wellformed_def)
  have R: "Sort_loop \<rho> n g [] = ((?lv # ?L', snd (fst ?R')), snd ?R')"
    using step.hyps by (rule Sort_loop_step_nil [where \<rho> = \<rho> and n = n])
  have w': "wellformed ?g'" using step.prems(1) by (rule wellformed_removeLeaves)
  have a': "acyclic (edgeSet ?g')" using step.prems(2) by (rule acyclic_removeLeaves)
  from step.IH [OF w' a']
  have e': "snd (fst ?R') = None"
    and m': "mset (concat ?L') = mset (map fst (edges ?g'))"
    and o': "\<And>a b. (a, b) \<in> edgeSet ?g' \<Longrightarrow>
        \<exists>i j. layerIndex ?L' b = Some i \<and> layerIndex ?L' a = Some j \<and> i < j"
    by blast+
  have m: "mset (concat (?lv # ?L')) = mset (map fst (edges g))"
    using mset_layer_rest [OF d, of "\<rho> n"] m' by simp
  have o: "\<exists>i j. layerIndex (?lv # ?L') b = Some i \<and> layerIndex (?lv # ?L') a = Some j \<and> i < j"
    if ab: "(a, b) \<in> edgeSet g" for a b
  proof -
    from ab have na: "a \<notin> set ?lv" by (auto simp: leaf_iff [OF d])
    from ab have "a \<in> vertexSet g" by (force simp: edgeSet_iff vertexSet_def)
    with na have "a \<in> vertexSet ?g'" by (simp add: vertexSet_removeLeaves)
    then have "a \<in> set (concat ?L')"
      using m' by (metis vertexSet_def set_mset_mset)
    then obtain j where j: "layerIndex ?L' a = Some j" using layerIndex_Some by blast
    show ?thesis
    proof (cases "b \<in> set ?lv")
      case True
      with na j show ?thesis by simp
    next
      case False
      with ab na have "(a, b) \<in> edgeSet ?g'" by (simp add: edgeSet_removeLeaves)
      from o' [OF this] False na show ?thesis by auto
    qed
  qed
  show ?case unfolding R using e' m o by simp
qed

lemma distinct_concat_unique_layer:
  "distinct (concat ls) \<Longrightarrow> i < length ls \<Longrightarrow> j < length ls \<Longrightarrow>
   v \<in> set (ls ! i) \<Longrightarrow> v \<in> set (ls ! j) \<Longrightarrow> i = j"
proof (induction ls arbitrary: i j)
  case Nil
  then show ?case by simp
next
  case (Cons l ls)
  show ?case
  proof (cases i)
    case 0
    show ?thesis
    proof (cases j)
      case (Suc j')
      with Cons.prems 0 have "v \<in> set l" "v \<in> set (concat ls)" by auto
      with Cons.prems(1) show ?thesis by auto
    qed (simp add: 0)
  next
    case (Suc i')
    show ?thesis
    proof (cases j)
      case 0
      with Cons.prems Suc have "v \<in> set l" "v \<in> set (concat ls)" by auto
      with Cons.prems(1) show ?thesis by auto
    next
      case (Suc j')
      with Cons.prems \<open>i = Suc i'\<close> Cons.IH [of i' j'] show ?thesis by simp
    qed
  qed
qed


lemma deployment_eq: "deployment n = deployment m \<longleftrightarrow> n = m"
  by (simp add: deployment_def)

lemma acyclic_diamond: "acyclic (edgeSet (build diamond))"
proof -
  have "acyclic ({} :: (ObjMetadata \<times> ObjMetadata) set)" by (simp add: acyclic_def)
  then show ?thesis
    by (simp add: edgeSet_build diamond_def acyclic_insert rtrancl_insert deployment_eq)
qed

lemma Sort_diamond:
  "fst (Sort by_name_length (build diamond)) =
     ([[deployment ''D''], [deployment ''B'', deployment ''C''], [deployment ''A'']], None)"
  by code_simp


text \<open>
  C2. For a graph built by insertion calls whose edges form no cycle, Sort returns no
  error, and the concatenation of the returned layers is a permutation of the vertices
  of the graph: it has no duplicates and holds exactly the vertices, so every vertex is
  in exactly one layer, once. This holds for every iteration order \<open>\<rho>\<close>.
\<close>

theorem Sort_complete:
  assumes "acyclic (edgeSet (build cs))"
  shows "snd (fst (Sort \<rho> (build cs))) = None \<and>
         mset (concat (fst (fst (Sort \<rho> (build cs))))) = mset (map fst (edges (build cs))) \<and>
         distinct (concat (fst (fst (Sort \<rho> (build cs))))) \<and>
         set (concat (fst (fst (Sort \<rho> (build cs))))) = vertexSet (build cs) \<and>
         (\<forall>v \<in> vertexSet (build cs).
            \<exists>!i. i < length (fst (fst (Sort \<rho> (build cs)))) \<and>
                 v \<in> set (fst (fst (Sort \<rho> (build cs))) ! i))"
proof -
  let ?g = "build cs"
  let ?L = "fst (fst (Sort \<rho> ?g))"
  have w: "wellformed ?g" by (rule wellformed_build)
  from Sort_loop_acyclic [OF w assms, of \<rho> 0]
  have e: "snd (fst (Sort \<rho> ?g)) = None"
    and m: "mset (concat ?L) = mset (map fst (edges ?g))"
    by (simp_all add: Sort_def)
  from w have "distinct (map fst (edges ?g))" by (simp add: wellformed_def)
  with m have d: "distinct (concat ?L)" by (metis mset_eq_imp_distinct_iff)
  from m have s: "set (concat ?L) = vertexSet ?g" by (metis vertexSet_def set_mset_mset)
  have "\<exists>!i. i < length ?L \<and> v \<in> set (?L ! i)" if "v \<in> vertexSet ?g" for v
  proof -
    from that s obtain l where "l \<in> set ?L" "v \<in> set l" by auto
    then obtain i where "i < length ?L \<and> v \<in> set (?L ! i)" by (auto simp: in_set_conv_nth)
    then show ?thesis using distinct_concat_unique_layer [OF d] by blast
  qed
  with e m d s show ?thesis by blast
qed


theorem Sort_complete_witness:
  "acyclic (edgeSet (build diamond)) \<and>
   fst (Sort by_name_length (build diamond)) =
     ([[deployment ''D''], [deployment ''B'', deployment ''C''], [deployment ''A'']], None) \<and>
   distinct (concat (fst (fst (Sort by_name_length (build diamond))))) \<and>
   set (concat (fst (fst (Sort by_name_length (build diamond))))) = vertexSet (build diamond) \<and>
   vertexSet (build diamond) =
     {deployment ''A'', deployment ''B'', deployment ''C'', deployment ''D''}"
proof -
  have v: "vertexSet (build diamond) =
     {deployment ''A'', deployment ''B'', deployment ''C'', deployment ''D''}"
    by (auto simp: vertexSet_build diamond_def)
  from Sort_complete [OF acyclic_diamond, of by_name_length] acyclic_diamond Sort_diamond v
  show ?thesis by simp
qed


text \<open>
  C1. For a graph built by insertion calls whose edges form no cycle, and every edge
  "A depends on B" among the calls, the layer that holds B comes strictly before the
  layer that holds A in the result of Sort.
\<close>

theorem Sort_order:
  assumes "acyclic (edgeSet (build cs))" and "CallAddEdge A B \<in> set cs"
  shows "\<exists>i j. layerIndex (fst (fst (Sort \<rho> (build cs)))) B = Some i \<and>
               layerIndex (fst (fst (Sort \<rho> (build cs)))) A = Some j \<and> i < j \<and>
               j < length (fst (fst (Sort \<rho> (build cs)))) \<and>
               B \<in> set (fst (fst (Sort \<rho> (build cs))) ! i) \<and>
               A \<in> set (fst (fst (Sort \<rho> (build cs))) ! j)"
proof -
  let ?g = "build cs"
  let ?L = "fst (fst (Sort \<rho> ?g))"
  have w: "wellformed ?g" by (rule wellformed_build)
  from assms(2) have "(A, B) \<in> edgeSet ?g" by (force simp: edgeSet_build)
  with Sort_loop_acyclic [OF w assms(1), of \<rho> 0]
  obtain i j where ij: "layerIndex ?L B = Some i" "layerIndex ?L A = Some j" "i < j"
    unfolding Sort_def by blast
  with layerIndex_member [of ?L B i] layerIndex_member [of ?L A j] show ?thesis by blast
qed

theorem Sort_order_witness:
  "acyclic (edgeSet (build diamond)) \<and>
   CallAddEdge (deployment ''A'') (deployment ''B'') \<in> set diamond \<and>
   layerIndex (fst (fst (Sort by_name_length (build diamond)))) (deployment ''B'') = Some 1 \<and>
   layerIndex (fst (fst (Sort by_name_length (build diamond)))) (deployment ''A'') = Some 2 \<and>
   (\<exists>i j. layerIndex (fst (fst (Sort by_name_length (build diamond)))) (deployment ''B'') = Some i \<and>
          layerIndex (fst (fst (Sort by_name_length (build diamond)))) (deployment ''A'') = Some j \<and>
          i < j)"
proof -
  have e: "CallAddEdge (deployment ''A'') (deployment ''B'') \<in> set diamond"
    by (simp add: diamond_def)
  have b: "layerIndex (fst (fst (Sort by_name_length (build diamond)))) (deployment ''B'') = Some 1"
    by (simp add: Sort_diamond deployment_eq)
  have a: "layerIndex (fst (fst (Sort by_name_length (build diamond)))) (deployment ''A'') = Some 2"
    by (simp add: Sort_diamond deployment_eq)
  from Sort_order [OF acyclic_diamond e, of by_name_length] acyclic_diamond e a b
  show ?thesis by blast
qed

section \<open>Self-edges\<close>

lemma Sort_loop_self_edge:
  "distinct (map fst (edges g)) \<Longrightarrow> (z, z) \<in> edgeSet g \<Longrightarrow>
     z \<notin> set (concat (fst (fst (Sort_loop \<rho> n g [])))) \<and>
     (\<exists>e. snd (fst (Sort_loop \<rho> n g [])) = Some e \<and> z \<in> set (ids e) \<and>
          \<lparr>From = z, To = z\<rparr> \<in> set (Edges (cause e)))"
proof (induction n g rule: Sort_loop_induct [where \<rho> = \<rho>])
  case (empty n g)
  then have "edges g = []" by (simp add: Size_def)
  with empty show ?case by (simp add: edgeSet_def edgeList_def)
next
  case (stuck n g)
  from stuck.prems(2) have "z \<in> vertexSet g" by (force simp: edgeSet_iff vertexSet_def)
  with stuck show ?case
    by (force simp: Sort_loop_stuck NewError_def set_GetVertices set_GetEdges)
next
  case (step n g)
  let ?lv = "Sort_leafVertices (\<rho> n) g"
  let ?g' = "Sort_removeLeaves g ?lv"
  from step.prems have nz: "z \<notin> set ?lv" by (auto simp: leaf_iff)
  with step.prems(2) have "(z, z) \<in> edgeSet ?g'" by (simp add: edgeSet_removeLeaves)
  with step.IH distinct_removeLeaves [OF step.prems(1)] nz show ?case
    by (simp add: Sort_loop_step_nil [where \<rho> = \<rho> and n = n, OF step.hyps])
qed

text \<open>
  C6. When \<^verbatim>\<open>AddEdge(Z, Z)\<close> is among the calls that built the graph, Sort places Z in no
  layer and returns a failure whose vertices include Z and whose edges include Z\<rightarrow>Z.
\<close>

theorem Sort_self_edge:
  assumes "CallAddEdge Z Z \<in> set cs"
  shows "Z \<notin> set (concat (fst (fst (Sort \<rho> (build cs))))) \<and>
         (\<exists>e. snd (fst (Sort \<rho> (build cs))) = Some e \<and> Z \<in> set (ids e) \<and>
              \<lparr>From = Z, To = Z\<rparr> \<in> set (Edges (cause e)))"
proof -
  have "wellformed (build cs)" by (rule wellformed_build)
  then have d: "distinct (map fst (edges (build cs)))" by (simp add: wellformed_def)
  from assms have "(Z, Z) \<in> edgeSet (build cs)" by (force simp: edgeSet_build)
  with d show ?thesis unfolding Sort_def by (rule Sort_loop_self_edge)
qed

theorem Sort_self_edge_witness:
  "CallAddEdge podB podB \<in> set self_edge \<and>
   fst (fst (Sort stored_order (build self_edge))) = [[ns1]] \<and>
   podB \<notin> set (concat (fst (fst (Sort stored_order (build self_edge))))) \<and>
   (\<exists>e. snd (fst (Sort stored_order (build self_edge))) = Some e \<and> podB \<in> set (ids e) \<and>
        \<lparr>From = podB, To = podB\<rparr> \<in> set (Edges (cause e)))"
proof -
  have a: "CallAddEdge podB podB \<in> set self_edge" by (simp add: self_edge_def)
  have b: "fst (fst (Sort stored_order (build self_edge))) = [[ns1]]" by code_simp
  from Sort_self_edge [OF a, of stored_order] a b show ?thesis by simp
qed


end
